theory Spec2Isabelle
  imports Complex_Main "HOL-Library.AList" "HOL-Library.Word"
begin

section \<open>Block rewards: payouts/unlocker.go\<close>

text \<open>
  Block heights are \<^verbatim>\<open>int64\<close> and rewards are \<^verbatim>\<open>float64\<close> in the source. The code
  only compares heights and only copies rewards (no arithmetic on either), so heights are
  modelled as \<^typ>\<open>int\<close> and rewards as \<^typ>\<open>real\<close>; every schedule of the source
  uses finite floats that are exact reals (50, 25, 12.5, 6.25).
\<close>

record NetworkConfig =
  Name :: string
  BlockReward :: "int \<rightharpoonup> real"
  AdjustmentFreq :: int
  HasUncles :: bool

definition ZetherMainnet :: string where
  "ZetherMainnet = ''ZetherMainnet''"

definition ZetherRewards :: "int \<rightharpoonup> real" where
  "ZetherRewards = [0 \<mapsto> 50.0, 100000 \<mapsto> 25.0, 200000 \<mapsto> 12.5, 300000 \<mapsto> 6.25]"

definition TestnetRewards :: "int \<rightharpoonup> real" where
  "TestnetRewards = [0 \<mapsto> 50.0, 1000 \<mapsto> 25.0, 2000 \<mapsto> 12.5, 3000 \<mapsto> 6.25]"

definition ZetherNetwork :: NetworkConfig where
  "ZetherNetwork =
     \<lparr>Name = ZetherMainnet, BlockReward = ZetherRewards,
      AdjustmentFreq = 100000, HasUncles = False\<rparr>"

text \<open>
  \<^verbatim>\<open>for height, r := range config.BlockReward\<close> iterates a Go map. The language leaves
  the iteration order of a map unspecified (the runtime starts at a random position), and
  it may differ from one loop to the next. A loop over the map \<open>m\<close> therefore sees some
  list of the entries of \<open>m\<close>, each entry once: any list \<open>xs\<close> with \<open>range_order m xs\<close>.
\<close>

definition range_order :: "(int \<rightharpoonup> real) \<Rightarrow> (int \<times> real) list \<Rightarrow> bool" where
  "range_order m xs \<longleftrightarrow> distinct (map fst xs) \<and> map_of xs = m"

text \<open>
  The body of the loop of \<^verbatim>\<open>GetReward\<close> over the entries still to visit: an entry at or
  below \<open>blockHeight\<close> overwrites \<open>reward\<close>, the first entry above it leaves the loop
  (\<^verbatim>\<open>break\<close>).
\<close>

fun GetReward_loop :: "(int \<times> real) list \<Rightarrow> int \<Rightarrow> real \<Rightarrow> real" where
  "GetReward_loop [] blockHeight reward = reward"
| "GetReward_loop ((height, r) # rest) blockHeight reward =
     (if blockHeight \<ge> height then GetReward_loop rest blockHeight r else reward)"

text \<open>
  \<^verbatim>\<open>GetReward(config, blockHeight)\<close>. The first argument is the order in which the
  runtime hands out the entries of a map during this call.
\<close>

definition GetReward ::
  "((int \<rightharpoonup> real) \<Rightarrow> (int \<times> real) list) \<Rightarrow> NetworkConfig \<Rightarrow> int \<Rightarrow> real" where
  "GetReward order config blockHeight =
     GetReward_loop (order (BlockReward config)) blockHeight 0.0"

text \<open>
  \<^verbatim>\<open>SimulateUnlock\<close> prints to standard output, or ends the process through
  \<^verbatim>\<open>log.Fatalf\<close>. The printed lines are kept as values (the text formatting of
  \<^verbatim>\<open>Printf\<close> is not modelled); the fatal exit is the error of the result.
\<close>

datatype fatal = Invalid_block_height int

datatype printed =
  Network string
  | Block_Height int
  | Block_Reward real
  | Note_no_uncle_blocks

definition SimulateUnlock ::
  "((int \<rightharpoonup> real) \<Rightarrow> (int \<times> real) list) \<Rightarrow> NetworkConfig \<Rightarrow> int \<Rightarrow> fatal + printed list" where
  "SimulateUnlock order networkConfig blockHeight =
     (if blockHeight < 0 then Inl (Invalid_block_height blockHeight)
      else
        let reward = GetReward order networkConfig blockHeight
        in Inr ([Network (Name networkConfig), Block_Height blockHeight, Block_Reward reward]
              @ (if \<not> HasUncles networkConfig then [Note_no_uncle_blocks] else [])))"

text \<open>Three orders in which a loop may visit the four entries of \<open>ZetherRewards\<close>.\<close>

definition ascending_visit :: "(int \<rightharpoonup> real) \<Rightarrow> (int \<times> real) list" where
  "ascending_visit m = [(0, 50.0), (100000, 25.0), (200000, 12.5), (300000, 6.25)]"

definition last_first_visit :: "(int \<rightharpoonup> real) \<Rightarrow> (int \<times> real) list" where
  "last_first_visit m = [(300000, 6.25), (0, 50.0), (100000, 25.0), (200000, 12.5)]"

definition second_first_visit :: "(int \<rightharpoonup> real) \<Rightarrow> (int \<times> real) list" where
  "second_first_visit m = [(100000, 25.0), (200000, 12.5), (300000, 6.25), (0, 50.0)]"

text \<open>
  A schedule whose only breakpoint lies above height 0, and the one order in which a loop
  can visit it.
\<close>

definition late_start :: NetworkConfig where
  "late_start =
     \<lparr>Name = ''late'', BlockReward = [10 \<mapsto> 50.0], AdjustmentFreq = 10, HasUncles = False\<rparr>"

definition only_visit :: "(int \<rightharpoonup> real) \<Rightarrow> (int \<times> real) list" where
  "only_visit m = [(10, 50.0)]"

section \<open>The payout store: storage/redis.go.save\<close>

text \<open>
  Go errors as values. \<open>redis_Nil\<close> is \<^verbatim>\<open>redis.Nil\<close>, the client's reply for a key that
  does not exist; \<open>Failure msg\<close> is any other error of the client or of the JSON decoder;
  \<open>Errorf msg err\<close> is \<^verbatim>\<open>fmt.Errorf("msg: %w", err)\<close>, which wraps \<open>err\<close>.
\<close>

datatype error = redis_Nil | Failure string | Errorf string error

text \<open>\<^verbatim>\<open>errors.Is(err, redis.Nil)\<close>: \<open>err\<close>, or an error that it wraps, is \<^verbatim>\<open>redis.Nil\<close>.\<close>

fun errors_Is_Nil :: "error \<Rightarrow> bool" where
  "errors_Is_Nil redis_Nil = True"
| "errors_Is_Nil (Failure msg) = False"
| "errors_Is_Nil (Errorf msg err) = errors_Is_Nil err"

record PendingPayment =
  Address :: string
  Amount :: "64 word"
  Timestamp :: "64 word"

text \<open>
  \<^verbatim>\<open>RedisClient\<close> holds a connection to a Redis server. Its model holds what the
  functions of the source can observe through that connection: the string keys of the
  server with their values (\<open>store\<close>, in the order in which the server enumerates them),
  and the failures still to come (\<open>faults\<close>). Each command takes the head of
  \<open>faults\<close>: \<open>Some err\<close> makes the command fail with \<open>err\<close> (no connection, a timeout,
  an error reply) without being executed, \<open>None\<close> or an empty list lets it reach the
  server. A Go result \<^verbatim>\<open>(value, error)\<close> is a pair whose second component is \<open>None\<close>
  for \<^verbatim>\<open>nil\<close>. The \<^verbatim>\<open>log.Printf\<close> lines of the source are not modelled.
\<close>

record RedisClient =
  store :: "(string \<times> string) list"
  faults :: "error option list"

definition transmit :: "RedisClient \<Rightarrow> error option \<times> RedisClient" where
  "transmit c = (case faults c of [] \<Rightarrow> (None, c) | f # fs \<Rightarrow> (f, c\<lparr>faults := fs\<rparr>))"

text \<open>The next \<open>n\<close> commands reach the server.\<close>

definition reaches_server :: "nat \<Rightarrow> RedisClient \<Rightarrow> bool" where
  "reaches_server n c \<longleftrightarrow> list_all (\<lambda>f. f = None) (take n (faults c))"

text \<open>
  The glob patterns of \<^verbatim>\<open>KEYS\<close>, as far as the source uses them: \<^verbatim>\<open>*\<close> stands for any
  run of characters, every other character for itself.
\<close>

fun glob_match :: "string \<Rightarrow> string \<Rightarrow> bool" where
  "glob_match [] [] = True"
| "glob_match [] (c # s) = False"
| "glob_match (p # ps) [] = (p = CHR ''*'' \<and> glob_match ps [])"
| "glob_match (p # ps) (c # s) =
     (if p = CHR ''*'' then glob_match ps (c # s) \<or> glob_match (p # ps) s
      else p = c \<and> glob_match ps s)"

text \<open>
  The commands of the client that the source calls, with the replies Redis documents:
  \<^verbatim>\<open>KEYS\<close> lists the matching keys, \<^verbatim>\<open>GET\<close> of a missing key is \<^verbatim>\<open>redis.Nil\<close>,
  \<^verbatim>\<open>SET\<close> overwrites, \<^verbatim>\<open>DEL\<close> of a missing key removes nothing and is no error.
  \<^verbatim>\<open>.Result()\<close> gives the value and the error, \<^verbatim>\<open>.Err()\<close> the error alone.
\<close>

definition client_Keys ::
  "RedisClient \<Rightarrow> string \<Rightarrow> (string list \<times> error option) \<times> RedisClient" where
  "client_Keys c pattern =
     (case transmit c of
        (Some err, c') \<Rightarrow> (([], Some err), c')
      | (None, c') \<Rightarrow> ((filter (glob_match pattern) (map fst (store c')), None), c'))"

definition client_Get ::
  "RedisClient \<Rightarrow> string \<Rightarrow> (string \<times> error option) \<times> RedisClient" where
  "client_Get c key =
     (case transmit c of
        (Some err, c') \<Rightarrow> (([], Some err), c')
      | (None, c') \<Rightarrow>
          (case map_of (store c') key of
             None \<Rightarrow> (([], Some redis_Nil), c')
           | Some val \<Rightarrow> ((val, None), c')))"

definition client_Set ::
  "RedisClient \<Rightarrow> string \<Rightarrow> string \<Rightarrow> error option \<times> RedisClient" where
  "client_Set c key val =
     (case transmit c of
        (Some err, c') \<Rightarrow> (Some err, c')
      | (None, c') \<Rightarrow> (None, c'\<lparr>store := AList.update key val (store c')\<rparr>))"

definition client_Del :: "RedisClient \<Rightarrow> string \<Rightarrow> error option \<times> RedisClient" where
  "client_Del c key =
     (case transmit c of
        (Some err, c') \<Rightarrow> (Some err, c')
      | (None, c') \<Rightarrow> (None, c'\<lparr>store := AList.delete key (store c')\<rparr>))"

text \<open>
  \<^verbatim>\<open>json.Unmarshal([]byte(val), &payment)\<close> belongs to Go's standard library. It is a
  parameter of the model: a function from the stored text to the decoded record and the
  error.
\<close>

type_synonym json_Unmarshal = "string \<Rightarrow> PendingPayment \<times> error option"

text \<open>
  The loop of \<^verbatim>\<open>GetPendingPayments\<close> over the keys still to fetch. A Go slice result
  is \<open>None\<close> for \<^verbatim>\<open>nil\<close> and \<open>Some xs\<close> otherwise.
\<close>

fun GetPendingPayments_loop ::
  "json_Unmarshal \<Rightarrow> RedisClient \<Rightarrow> string list \<Rightarrow> PendingPayment list \<Rightarrow>
   (PendingPayment list option \<times> error option) \<times> RedisClient" where
  "GetPendingPayments_loop unmarshal c [] payments = ((Some payments, None), c)"
| "GetPendingPayments_loop unmarshal c (key # keys) payments =
     (case client_Get c key of
        ((val, Some err), c') \<Rightarrow>
          ((None, Some (Errorf (''failed to get payment data for key '' @ key) err)), c')
      | ((val, None), c') \<Rightarrow>
          (case unmarshal val of
             (payment, Some err) \<Rightarrow>
               ((None, Some (Errorf ''failed to unmarshal payment data'' err)), c')
           | (payment, None) \<Rightarrow>
               GetPendingPayments_loop unmarshal c' keys (payments @ [payment])))"

definition GetPendingPayments ::
  "json_Unmarshal \<Rightarrow> RedisClient \<Rightarrow>
   (PendingPayment list option \<times> error option) \<times> RedisClient" where
  "GetPendingPayments unmarshal c =
     (case client_Keys c ''pending_payment:*'' of
        ((keys, Some err), c') \<Rightarrow>
          ((None, Some (Errorf ''failed to get pending payments'' err)), c')
      | ((keys, None), c') \<Rightarrow> GetPendingPayments_loop unmarshal c' keys [])"

definition IsPayoutsLocked :: "RedisClient \<Rightarrow> (bool \<times> error option) \<times> RedisClient" where
  "IsPayoutsLocked c =
     (case client_Get c ''payouts_locked'' of
        ((val, Some err), c') \<Rightarrow>
          (if errors_Is_Nil err then ((False, None), c')
           else ((False, Some (Errorf ''failed to check payouts lock'' err)), c'))
      | ((val, None), c') \<Rightarrow> ((val = ''1'', None), c'))"

definition DeleteOldMinerData :: "RedisClient \<Rightarrow> string \<Rightarrow> error option \<times> RedisClient" where
  "DeleteOldMinerData c key =
     (case client_Del c key of
        (Some err, c') \<Rightarrow> (Some (Errorf ''failed to delete old miner data'' err), c')
      | (None, c') \<Rightarrow> (None, c'))"

definition DeleteOldShareData :: "RedisClient \<Rightarrow> string \<Rightarrow> error option \<times> RedisClient" where
  "DeleteOldShareData c key =
     (case client_Del c key of
        (Some err, c') \<Rightarrow> (Some (Errorf ''failed to delete old share data'' err), c')
      | (None, c') \<Rightarrow> (None, c'))"

text \<open>
  The keys that \<^verbatim>\<open>GetPendingPayments\<close> asks for, and the text stored under a key.
\<close>

definition pending_keys :: "RedisClient \<Rightarrow> string list" where
  "pending_keys c = filter (glob_match ''pending_payment:*'') (map fst (store c))"

definition stored :: "RedisClient \<Rightarrow> string \<Rightarrow> string" where
  "stored c key = (case map_of (store c) key of None \<Rightarrow> [] | Some val \<Rightarrow> val)"

text \<open>
  A stored text decodes when its key is in the store and \<^verbatim>\<open>json.Unmarshal\<close> accepts it.
\<close>

definition decodes :: "json_Unmarshal \<Rightarrow> RedisClient \<Rightarrow> string \<Rightarrow> bool" where
  "decodes unmarshal c key \<longleftrightarrow>
     map_of (store c) key \<noteq> None \<and> snd (unmarshal (stored c key)) = None"

subsection \<open>The JSON text of a pending payment\<close>

text \<open>
  The bytes of a Go string are the characters of a \<^typ>\<open>string\<close>. \<open>utf8_width xs\<close> is what
  \<^verbatim>\<open>utf8.DecodeRune\<close> accepts at the head of \<open>xs\<close>: the length of the well-formed UTF-8
  sequence that starts there, or 0 when there is none (a stray or truncated byte, an
  overlong form, a surrogate, a value above U+10FFFF).
\<close>

definition between :: "nat \<Rightarrow> nat \<Rightarrow> char \<Rightarrow> bool" where
  "between lo hi c \<longleftrightarrow> lo \<le> of_char c \<and> of_char c \<le> hi"

definition seq2 :: "string \<Rightarrow> bool" where
  "seq2 xs \<longleftrightarrow>
     (case take 2 xs of
        [x, y] \<Rightarrow> between 0xC2 0xDF x \<and> between 0x80 0xBF y
      | _ \<Rightarrow> False)"

definition seq3 :: "string \<Rightarrow> bool" where
  "seq3 xs \<longleftrightarrow>
     (case take 3 xs of
        [x, y, z] \<Rightarrow>
          between 0xE0 0xEF x
          \<and> between (if x = CHR 0xE0 then 0xA0 else 0x80) (if x = CHR 0xED then 0x9F else 0xBF) y
          \<and> between 0x80 0xBF z
      | _ \<Rightarrow> False)"

definition seq4 :: "string \<Rightarrow> bool" where
  "seq4 xs \<longleftrightarrow>
     (case take 4 xs of
        [x, y, z, u] \<Rightarrow>
          between 0xF0 0xF4 x
          \<and> between (if x = CHR 0xF0 then 0x90 else 0x80) (if x = CHR 0xF4 then 0x8F else 0xBF) y
          \<and> between 0x80 0xBF z \<and> between 0x80 0xBF u
      | _ \<Rightarrow> False)"

definition utf8_width :: "string \<Rightarrow> nat" where
  "utf8_width xs =
     (case xs of
        [] \<Rightarrow> 0
      | x # _ \<Rightarrow>
          if (of_char x :: nat) < 0x80 then 1
          else if seq2 xs then 2
          else if seq3 xs then 3
          else if seq4 xs then 4
          else 0)"

text \<open>
  A string read rune by rune, as a Go loop over \<^verbatim>\<open>utf8.DecodeRune\<close> reads it: each
  well-formed sequence is one piece, each byte that starts none is a piece of its own.
  \<open>replacement\<close> is U+FFFD in UTF-8.
\<close>

definition replacement :: string where
  "replacement = [CHR 0xEF, CHR 0xBF, CHR 0xBD]"

function runes :: "string \<Rightarrow> string list" where
  "runes [] = []"
| "runes (b # bs) =
     (if utf8_width (b # bs) = 0 then [b] # runes bs
      else take (utf8_width (b # bs)) (b # bs) # runes (drop (utf8_width (b # bs)) (b # bs)))"
  by pat_completeness auto
termination
  by (relation "measure length") auto

definition valid_utf8 :: "string \<Rightarrow> bool" where
  "valid_utf8 s \<longleftrightarrow> list_all (\<lambda>r. utf8_width r \<noteq> 0) (runes s)"

text \<open>
  What a string becomes when it is coerced to valid UTF-8: every byte that starts no
  well-formed sequence is replaced by U+FFFD.
\<close>

definition coerce_rune :: "string \<Rightarrow> string" where
  "coerce_rune r = (if utf8_width r = 0 then replacement else r)"

definition coerce :: "string \<Rightarrow> string" where
  "coerce s = concat (map coerce_rune (runes s))"

text \<open>
  A string in the JSON text that Go's \<^verbatim>\<open>json.Marshal\<close> writes is quoted, with the escapes
  of \<^verbatim>\<open>encoding/json\<close>: a backslash before the double quote and the backslash; the
  two-character escapes of line feed, carriage return and tab; the six-character escape
  \<^verbatim>\<open>u00XX\<close> for the other control characters and for \<^verbatim>\<open><\<close>, \<^verbatim>\<open>>\<close> and \<^verbatim>\<open>&\<close>;
  the escapes \<^verbatim>\<open>u2028\<close> and \<^verbatim>\<open>u2029\<close> for the two separators; and the escape
  \<^verbatim>\<open>ufffd\<close> for every byte that is not valid UTF-8.
\<close>

definition html_safe :: "char \<Rightarrow> bool" where
  "html_safe c \<longleftrightarrow>
     (0x20::nat) \<le> of_char c \<and> (of_char c :: nat) < 0x80
     \<and> c \<noteq> CHR 0x22 \<and> c \<noteq> CHR ''&'' \<and> c \<noteq> CHR ''<'' \<and> c \<noteq> CHR ''>'' \<and> c \<noteq> CHR 0x5C"

definition hex :: "nat \<Rightarrow> char" where
  "hex n = ''0123456789abcdef'' ! n"

definition escape_rune :: "string \<Rightarrow> string" where
  "escape_rune r =
     (case r of
        [] \<Rightarrow> []
      | b # _ \<Rightarrow>
          if (of_char b :: nat) < 0x80 then
            (if html_safe b then [b]
             else if b = CHR 0x5C \<or> b = CHR 0x22 then [CHR 0x5C, b]
             else if b = CHR 0x0A then [CHR 0x5C, CHR ''n'']
             else if b = CHR 0x0D then [CHR 0x5C, CHR ''r'']
             else if b = CHR 0x09 then [CHR 0x5C, CHR ''t'']
             else CHR 0x5C # ''u00'' @ [hex (of_char b div 16), hex (of_char b mod 16)])
          else if utf8_width r = 0 then CHR 0x5C # ''ufffd''
          else if r = [CHR 0xE2, CHR 0x80, CHR 0xA8] then CHR 0x5C # ''u2028''
          else if r = [CHR 0xE2, CHR 0x80, CHR 0xA9] then CHR 0x5C # ''u2029''
          else r)"

definition escape :: "string \<Rightarrow> string" where
  "escape s = concat (map escape_rune (runes s))"

definition quoted :: "string \<Rightarrow> string" where
  "quoted s = CHR 0x22 # s @ [CHR 0x22]"

definition digit :: "nat \<Rightarrow> char" where
  "digit n = char_of (48 + n)"

function enc_nat :: "nat \<Rightarrow> string" where
  "enc_nat n = (if n < 10 then [digit n] else enc_nat (n div 10) @ [digit (n mod 10)])"
  by pat_completeness auto
termination
  by (relation "measure id") auto

declare enc_nat.simps [simp del]

definition enc_int :: "int \<Rightarrow> string" where
  "enc_int i = (if i < 0 then CHR ''-'' # enc_nat (nat (- i)) else enc_nat (nat i))"

text \<open>
  Modelled from the spec: the code that persists a pending payment is not in the
  repository's sources. The spec gives the stored shape,
  \<^verbatim>\<open>{"Address": string, "Amount": integer, "Timestamp": integer}\<close>, with these field
  names. \<open>Marshal_PendingPayment\<close> is the text that \<^verbatim>\<open>json.Marshal\<close> writes for the
  struct: the fields in the order of their declaration, the address as a quoted string,
  the amount and the timestamp (both \<^verbatim>\<open>int64\<close>) in decimal.
\<close>

definition Marshal_PendingPayment :: "PendingPayment \<Rightarrow> string" where
  "Marshal_PendingPayment payment =
     ''{'' @ quoted ''Address'' @ '':'' @ quoted (escape (Address payment))
     @ '','' @ quoted ''Amount'' @ '':'' @ enc_int (sint (Amount payment))
     @ '','' @ quoted ''Timestamp'' @ '':'' @ enc_int (sint (Timestamp payment)) @ ''}''"

text \<open>
  Reading a JSON string literal, as \<^verbatim>\<open>encoding/json\<close> documents it. \<open>unquote\<close> starts
  after the opening quote and returns the string with the text after the closing quote:
  escapes are resolved, and bytes that are not valid UTF-8 are replaced by U+FFFD. It
  gives \<open>None\<close> for a literal that is not closed, holds a control character or an unknown
  escape, and also for a surrogate escape, which the model leaves open.
\<close>

definition hexval :: "char \<Rightarrow> nat option" where
  "hexval c =
     (let n = of_char c :: nat in
      if 48 \<le> n \<and> n \<le> 57 then Some (n - 48)
      else if 97 \<le> n \<and> n \<le> 102 then Some (n - 87)
      else if 65 \<le> n \<and> n \<le> 70 then Some (n - 55)
      else None)"

definition getu4 :: "string \<Rightarrow> nat option" where
  "getu4 ds =
     (case map hexval ds of
        [Some a, Some b, Some c, Some d] \<Rightarrow> Some (((a * 16 + b) * 16 + c) * 16 + d)
      | _ \<Rightarrow> None)"

definition utf8_encode :: "nat \<Rightarrow> string" where
  "utf8_encode cp =
     (if cp < 0x80 then [char_of cp]
      else if cp < 0x800 then [char_of (0xC0 + cp div 64), char_of (0x80 + cp mod 64)]
      else [char_of (0xE0 + cp div 4096), char_of (0x80 + cp div 64 mod 64),
            char_of (0x80 + cp mod 64)])"

definition simple_escape :: "char \<Rightarrow> char option" where
  "simple_escape e =
     (if e = CHR 0x22 \<or> e = CHR 0x5C \<or> e = CHR ''/'' then Some e
      else if e = CHR ''b'' then Some (CHR 0x08)
      else if e = CHR ''f'' then Some (CHR 0x0C)
      else if e = CHR ''n'' then Some (CHR 0x0A)
      else if e = CHR ''r'' then Some (CHR 0x0D)
      else if e = CHR ''t'' then Some (CHR 0x09)
      else None)"

definition prepend :: "string \<Rightarrow> (string \<times> string) option \<Rightarrow> (string \<times> string) option" where
  "prepend xs r = map_option (\<lambda>(s, rest). (xs @ s, rest)) r"

function unquote :: "string \<Rightarrow> (string \<times> string) option" where
  "unquote [] = None"
| "unquote (c # cs) =
     (if c = CHR 0x22 then Some ([], cs)
      else if c = CHR 0x5C then
        (case cs of
           [] \<Rightarrow> None
         | e # cs' \<Rightarrow>
             if e = CHR ''u'' then
               (case getu4 (take 4 cs') of
                  None \<Rightarrow> None
                | Some cp \<Rightarrow>
                    if 0xD800 \<le> cp \<and> cp < 0xE000 then None
                    else prepend (utf8_encode cp) (unquote (drop 4 cs')))
             else
               (case simple_escape e of
                  None \<Rightarrow> None
                | Some b \<Rightarrow> prepend [b] (unquote cs')))
      else if (of_char c :: nat) < 0x20 then None
      else if (of_char c :: nat) < 0x80 then prepend [c] (unquote cs)
      else if utf8_width (c # cs) = 0 then prepend replacement (unquote cs)
      else prepend (take (utf8_width (c # cs)) (c # cs))
             (unquote (drop (utf8_width (c # cs)) (c # cs))))"
  by pat_completeness auto
termination
  by (relation "measure length") auto

text \<open>
  An integer literal: an optional minus sign and decimal digits without a leading zero.
\<close>

definition is_digit :: "char \<Rightarrow> bool" where
  "is_digit c \<longleftrightarrow> (48::nat) \<le> of_char c \<and> (of_char c :: nat) \<le> 57"

definition digits_val :: "string \<Rightarrow> nat" where
  "digits_val ds = foldl (\<lambda>acc c. acc * 10 + (of_char c - 48)) 0 ds"

definition scan_int :: "string \<Rightarrow> (int \<times> string) option" where
  "scan_int text =
     (let neg = (case text of [] \<Rightarrow> False | c # _ \<Rightarrow> c = CHR ''-'');
          t = (if neg then tl text else text);
          ds = takeWhile is_digit t;
          rest = dropWhile is_digit t
      in if ds = [] \<or> (1 < length ds \<and> hd ds = CHR ''0'') then None
         else Some (if neg then - int (digits_val ds) else int (digits_val ds), rest))"

datatype token = LBrace | RBrace | Colon | Comma | TString string | TInt int

definition ws :: "char \<Rightarrow> bool" where
  "ws c \<longleftrightarrow> c = CHR '' '' \<or> c = CHR 0x09 \<or> c = CHR 0x0A \<or> c = CHR 0x0D"

function lex :: "string \<Rightarrow> token list option" where
  "lex [] = Some []"
| "lex (c # cs) =
     (if ws c then lex cs
      else if c = CHR ''{'' then map_option (Cons LBrace) (lex cs)
      else if c = CHR ''}'' then map_option (Cons RBrace) (lex cs)
      else if c = CHR '':'' then map_option (Cons Colon) (lex cs)
      else if c = CHR '','' then map_option (Cons Comma) (lex cs)
      else if c = CHR 0x22 then
        (case unquote cs of
           None \<Rightarrow> None
         | Some (s, rest) \<Rightarrow> map_option (Cons (TString s)) (lex rest))
      else if c = CHR ''-'' \<or> is_digit c then
        (case scan_int (c # cs) of
           None \<Rightarrow> None
         | Some (n, rest) \<Rightarrow> map_option (Cons (TInt n)) (lex rest))
      else None)"
  by pat_completeness auto
termination
proof -
  have unquote_shorter: "unquote cs = Some (s, rest) \<Longrightarrow> length rest < length cs"
    for cs s rest
  proof (induction cs arbitrary: s rule: unquote.induct)
    case 1
    then show ?case by simp
  next
    case (2 c cs)
    show ?case
    proof (cases "c = CHR 0x22")
      case True
      with "2.prems" show ?thesis by simp
    next
      case q: False
      show ?thesis
      proof (cases "c = CHR 0x5C")
        case True
        with q "2.prems" obtain e cs' where cs: "cs = e # cs'" by (cases cs) auto
        show ?thesis
        proof (cases "e = CHR ''u''")
          case u: True
          with q True cs "2.prems" obtain cp s' where
            cp: "getu4 (take 4 cs') = Some cp" "\<not> (0xD800 \<le> cp \<and> cp < 0xE000)"
            and r: "unquote (drop 4 cs') = Some (s', rest)"
            by (auto simp: prepend_def split: option.splits if_splits)
          from "2.IH"(1) [OF q True cs u cp(1) cp(2) r] cs show ?thesis by simp
        next
          case nu: False
          with q True cs "2.prems" obtain b s' where
            b: "simple_escape e = Some b" and r: "unquote cs' = Some (s', rest)"
            by (auto simp: prepend_def split: option.splits if_splits)
          from "2.IH"(2) [OF q True cs nu b r] cs show ?thesis by simp
        qed
      next
        case nb: False
        show ?thesis
        proof (cases "(of_char c :: nat) < 0x20")
          case True
          with q nb "2.prems" show ?thesis by simp
        next
          case nc: False
          show ?thesis
          proof (cases "(of_char c :: nat) < 0x80")
            case True
            with q nb nc "2.prems" obtain s' where r: "unquote cs = Some (s', rest)"
              by (auto simp: prepend_def split: option.splits)
            from "2.IH"(3) [OF q nb nc True r] show ?thesis by simp
          next
            case na: False
            show ?thesis
            proof (cases "utf8_width (c # cs) = 0")
              case True
              with q nb nc na "2.prems" obtain s' where r: "unquote cs = Some (s', rest)"
                by (auto simp: prepend_def split: option.splits)
              from "2.IH"(4) [OF q nb nc na True r] show ?thesis by simp
            next
              case False
              with q nb nc na "2.prems" obtain s' where
                r: "unquote (drop (utf8_width (c # cs)) (c # cs)) = Some (s', rest)"
                by (auto simp: prepend_def split: option.splits)
              from "2.IH"(5) [OF q nb nc na False r] False show ?thesis by simp
            qed
          qed
        qed
      qed
    qed
  qed
  have scan_int_shorter: "scan_int t = Some (n, rest) \<Longrightarrow> length rest < length t"
    for t n rest
  proof -
    assume a: "scan_int t = Some (n, rest)"
    define neg where "neg = (case t of [] \<Rightarrow> False | c # _ \<Rightarrow> c = CHR ''-'')"
    define u where "u = (if neg then tl t else t)"
    from a have ds: "takeWhile is_digit u \<noteq> []" and rest: "rest = dropWhile is_digit u"
      by (auto simp: scan_int_def Let_def neg_def u_def split: if_splits)
    have "length u = length (takeWhile is_digit u) + length (dropWhile is_digit u)"
      by (metis length_append takeWhile_dropWhile_id)
    with ds rest have "length rest < length u" by (cases "takeWhile is_digit u") auto
    moreover have "length u \<le> length t" by (simp add: u_def)
    ultimately show ?thesis by simp
  qed
  show ?thesis
  proof (relation "measure length", goal_cases)
    case 1
    show ?case by simp
  next
    case (7 c cs x s rest)
    with unquote_shorter [of cs s rest] show ?case by simp
  next
    case (8 c cs x n rest)
    with scan_int_shorter [of "c # cs" n rest] show ?case by simp
  qed simp_all
qed

text \<open>The members of an object, from its tokens.\<close>

datatype jvalue = JString string | JInt int

fun value_of :: "token \<Rightarrow> jvalue option" where
  "value_of (TString s) = Some (JString s)"
| "value_of (TInt n) = Some (JInt n)"
| "value_of _ = None"

fun members :: "token list \<Rightarrow> (string \<times> jvalue) list option" where
  "members (TString k # Colon # v # sep # rest) =
     (case value_of v of
        None \<Rightarrow> None
      | Some jv \<Rightarrow>
          if sep = RBrace \<and> rest = [] then Some [(k, jv)]
          else if sep = Comma then map_option (Cons (k, jv)) (members rest)
          else None)"
| "members _ = None"

definition parse_object :: "token list \<Rightarrow> (string \<times> jvalue) list option" where
  "parse_object toks =
     (case toks of
        LBrace # rest \<Rightarrow> if rest = [RBrace] then Some [] else members rest
      | _ \<Rightarrow> None)"

text \<open>
  The members are stored into the struct one after the other. A key stands for the field
  whose name it equals up to the case of its letters; other keys are skipped. A value of
  the wrong kind, or an integer outside \<^verbatim>\<open>int64\<close>, leaves the field as it is, and the first
  such error is the error of the call.
\<close>

definition to_lower :: "char \<Rightarrow> char" where
  "to_lower c =
     (if (65::nat) \<le> of_char c \<and> (of_char c :: nat) \<le> 90 then char_of (of_char c + (32::nat))
      else c)"

definition fold_equal :: "string \<Rightarrow> string \<Rightarrow> bool" where
  "fold_equal name key \<longleftrightarrow> map to_lower key = map to_lower name"

definition ascii :: "string \<Rightarrow> bool" where
  "ascii s \<longleftrightarrow> list_all (\<lambda>c. (of_char c :: nat) < 0x80) s"

definition keep :: "error option \<Rightarrow> error \<Rightarrow> error option" where
  "keep saved err = (case saved of None \<Rightarrow> Some err | Some first \<Rightarrow> Some first)"

definition int64 :: "int \<Rightarrow> bool" where
  "int64 n \<longleftrightarrow> - (2 ^ 63) \<le> n \<and> n < 2 ^ 63"

definition set_field ::
  "PendingPayment \<times> error option \<Rightarrow> string \<times> jvalue \<Rightarrow> PendingPayment \<times> error option" where
  "set_field acc member =
     (case (acc, member) of
        ((payment, saved), (key, v)) \<Rightarrow>
          if fold_equal ''Address'' key then
            (case v of
               JString s \<Rightarrow> (payment\<lparr>Address := s\<rparr>, saved)
             | JInt n \<Rightarrow> (payment, keep saved (Failure ''cannot unmarshal number into Address'')))
          else if fold_equal ''Amount'' key then
            (case v of
               JInt n \<Rightarrow>
                 if int64 n then (payment\<lparr>Amount := word_of_int n\<rparr>, saved)
                 else (payment, keep saved (Failure ''cannot unmarshal number into Amount''))
             | JString s \<Rightarrow> (payment, keep saved (Failure ''cannot unmarshal string into Amount'')))
          else if fold_equal ''Timestamp'' key then
            (case v of
               JInt n \<Rightarrow>
                 if int64 n then (payment\<lparr>Timestamp := word_of_int n\<rparr>, saved)
                 else (payment, keep saved (Failure ''cannot unmarshal number into Timestamp''))
             | JString s \<Rightarrow>
                 (payment, keep saved (Failure ''cannot unmarshal string into Timestamp'')))
          else (payment, saved))"

text \<open>
  Modelled from the spec: the decoder of the stored text is \<^verbatim>\<open>json.Unmarshal\<close> of Go's
  \<^verbatim>\<open>encoding/json\<close>, which is not in the repository's sources; the spec names the
  stored shape and the failure on malformed JSON. \<open>Unmarshal_PendingPayment\<close> decodes the
  texts of that shape as \<^verbatim>\<open>encoding/json\<close> documents it: a JSON object, with any
  white space between its tokens, whose keys are ASCII and whose values are strings or
  integers. Every other text (a syntax error, another kind of value, a non-ASCII key, a
  surrogate escape) is left to the parameter \<open>other\<close>.
\<close>

definition Unmarshal_PendingPayment :: "json_Unmarshal \<Rightarrow> json_Unmarshal" where
  "Unmarshal_PendingPayment other text =
     (case lex text of
        None \<Rightarrow> other text
      | Some toks \<Rightarrow>
          (case parse_object toks of
             None \<Rightarrow> other text
           | Some ms \<Rightarrow>
               if list_all (\<lambda>m. ascii (fst m)) ms
               then foldl set_field (\<lparr>Address = [], Amount = 0, Timestamp = 0\<rparr>, None) ms
               else other text))"

text \<open>The pieces that \<open>runes\<close> yields.\<close>

definition chunk :: "string \<Rightarrow> bool" where
  "chunk r \<longleftrightarrow> (length r = 1 \<and> utf8_width r = 0) \<or> (r \<noteq> [] \<and> utf8_width r = length r)"

subsection \<open>Sample stores\<close>

text \<open>
  The payment of the ledger example and its JSON text
  \<^verbatim>\<open>{"Address":"0xabc","Amount":1000,"Timestamp":1700000000}\<close>, with the behaviour of
  \<^verbatim>\<open>json.Unmarshal\<close> on the texts of the sample stores: that text decodes to the
  payment, the other texts held below are no JSON and are rejected.
\<close>

definition sample_payment :: PendingPayment where
  "sample_payment = \<lparr>Address = ''0xabc'', Amount = 1000, Timestamp = 1700000000\<rparr>"

definition sample_json :: string where
  "sample_json =
     ''{'' @ quoted ''Address'' @ '':'' @ quoted ''0xabc'' @ '','' @ quoted ''Amount'' @ '':1000,''
     @ quoted ''Timestamp'' @ '':1700000000}''"

definition sample_Unmarshal :: json_Unmarshal where
  "sample_Unmarshal val =
     (if val = sample_json then (sample_payment, None)
      else (\<lparr>Address = [], Amount = 0, Timestamp = 0\<rparr>, Some (Failure ''invalid character'')))"

definition ledger_ok :: RedisClient where
  "ledger_ok =
     \<lparr>store = [(''payouts_locked'', ''1''), (''pending_payment:0xabc'', sample_json)],
      faults = []\<rparr>"

definition ledger_bad_text :: RedisClient where
  "ledger_bad_text =
     \<lparr>store = [(''pending_payment:0xabc'', sample_json), (''pending_payment:0xdef'', ''oops'')],
      faults = []\<rparr>"

definition ledger_timeout :: RedisClient where
  "ledger_timeout =
     \<lparr>store = [(''pending_payment:0xabc'', sample_json)],
      faults = [None, Some (Failure ''i/o timeout'')]\<rparr>"

definition ledger_single :: RedisClient where
  "ledger_single = \<lparr>store = [(''pending_payment:0xabc'', sample_json)], faults = []\<rparr>"

definition no_lock :: RedisClient where
  "no_lock = \<lparr>store = [(''pending_payment:0xabc'', sample_json)], faults = []\<rparr>"

definition lock_unreachable :: RedisClient where
  "lock_unreachable =
     \<lparr>store = [(''payouts_locked'', ''1'')], faults = [Some (Failure ''connection refused'')]\<rparr>"

definition lock_zero :: RedisClient where
  "lock_zero = \<lparr>store = [(''payouts_locked'', ''0'')], faults = []\<rparr>"

text \<open>
  A payment whose address is the single byte FF, which is not valid UTF-8, and the store
  that holds its JSON text. \<open>reject_other\<close> stands for the decoder on the texts that
  \<open>Unmarshal_PendingPayment\<close> leaves open; the texts of the sample stores are not among
  them.
\<close>

definition ff_payment :: PendingPayment where
  "ff_payment = \<lparr>Address = [CHR 0xFF], Amount = 1000, Timestamp = 1700000000\<rparr>"

definition ledger_ff :: RedisClient where
  "ledger_ff =
     \<lparr>store = [(''pending_payment:ff'', Marshal_PendingPayment ff_payment)], faults = []\<rparr>"

definition reject_other :: json_Unmarshal where
  "reject_other text =
     (\<lparr>Address = [], Amount = 0, Timestamp = 0\<rparr>, Some (Failure ''invalid character''))"

section \<open>The visiting orders are orders of the mainnet schedule\<close>

lemma range_order_ascending_visit:
  "range_order ZetherRewards (ascending_visit ZetherRewards)"
  by (auto simp: range_order_def ascending_visit_def ZetherRewards_def fun_eq_iff)

lemma range_order_last_first_visit:
  "range_order ZetherRewards (last_first_visit ZetherRewards)"
  by (auto simp: range_order_def last_first_visit_def ZetherRewards_def fun_eq_iff)

lemma range_order_second_first_visit:
  "range_order ZetherRewards (second_first_visit ZetherRewards)"
  by (auto simp: range_order_def second_first_visit_def ZetherRewards_def fun_eq_iff)

lemma range_order_only_visit:
  "range_order (BlockReward late_start) (only_visit (BlockReward late_start))"
  by (auto simp: range_order_def only_visit_def late_start_def fun_eq_iff)

section \<open>The loop when the entries are visited in ascending order\<close>

text \<open>
  When the loop meets the entries in ascending order of height, the \<^verbatim>\<open>break\<close> is
  sound: everything after the first entry above \<open>h\<close> is above \<open>h\<close> too, and the result
  is the reward of the last entry at or below \<open>h\<close>.
\<close>

lemma GetReward_loop_ascending:
  "sorted_wrt (<) (map fst xs) \<Longrightarrow>
   GetReward_loop xs h acc =
     (case filter (\<lambda>(k, r). k \<le> h) xs of [] \<Rightarrow> acc | ys \<Rightarrow> snd (last ys))"
proof (induction xs arbitrary: acc)
  case Nil
  then show ?case by simp
next
  case (Cons x xs)
  obtain k r where x: "x = (k, r)" by (cases x)
  show ?case
  proof (cases "k \<le> h")
    case True
    with Cons x show ?thesis by (auto split: list.splits)
  next
    case False
    with Cons.prems x have "filter (\<lambda>(k, r). k \<le> h) xs = []"
      by (auto simp: filter_empty_conv)
    with False x show ?thesis by simp
  qed
qed

lemma GetReward_loop_result:
  "GetReward_loop xs h acc = acc \<or> GetReward_loop xs h acc \<in> snd ` set xs"
proof (induction xs arbitrary: acc)
  case Nil
  then show ?case by simp
next
  case (Cons x xs)
  obtain k r where x: "x = (k, r)" by (cases x)
  from Cons.IH [of r] x show ?case by auto
qed

lemma GetReward_loop_decaying:
  "sorted_wrt (\<ge>) (map snd xs) \<Longrightarrow> \<forall>r \<in> snd ` set xs. r \<le> acc \<Longrightarrow> h1 \<le> h2 \<Longrightarrow>
   GetReward_loop xs h2 acc \<le> GetReward_loop xs h1 acc"
proof (induction xs arbitrary: acc)
  case Nil
  then show ?case by simp
next
  case (Cons x xs)
  obtain k r where x: "x = (k, r)" by (cases x)
  show ?case
  proof (cases "k \<le> h1")
    case True
    from Cons.prems x have "sorted_wrt (\<ge>) (map snd xs)" and "\<forall>r' \<in> snd ` set xs. r' \<le> r"
      by auto
    from Cons.IH [OF this \<open>h1 \<le> h2\<close>] True \<open>h1 \<le> h2\<close> x show ?thesis by simp
  next
    case False
    have "GetReward_loop (x # xs) h2 acc \<le> acc"
      using GetReward_loop_result [of "x # xs" h2 acc] Cons.prems(2) by auto
    with False x show ?thesis by simp
  qed
qed

lemma sorted_le_last: "sorted xs \<Longrightarrow> (x::int) \<in> set xs \<Longrightarrow> x \<le> last xs"
  by (induction xs) auto

text \<open>
  Visited in ascending order, \<^verbatim>\<open>GetReward\<close> returns the reward of the breakpoint with
  the largest height at or below \<open>h\<close>, and zero when there is none.
\<close>

lemma GetReward_ascending_visit:
  assumes ord: "range_order (BlockReward config) (order (BlockReward config))"
    and asc: "sorted_wrt (<) (map fst (order (BlockReward config)))"
  shows "GetReward order config h =
     (if \<exists>k \<in> dom (BlockReward config). k \<le> h
      then the (BlockReward config (Max {k \<in> dom (BlockReward config). k \<le> h}))
      else 0)"
proof -
  define m where "m = BlockReward config"
  define xs where "xs = order m"
  define ys where "ys = filter (\<lambda>(k, r). k \<le> h) xs"
  from ord have dist: "distinct (map fst xs)" and m: "map_of xs = m"
    unfolding range_order_def xs_def m_def by auto
  from m have dom: "dom m = fst ` set xs"
    by (metis dom_map_of_conv_image_fst)
  have run: "GetReward order config h = (case ys of [] \<Rightarrow> 0 | _ \<Rightarrow> snd (last ys))"
    using GetReward_loop_ascending [OF asc]
    unfolding GetReward_def ys_def xs_def m_def by (simp split: list.splits)
  show ?thesis
  proof (cases "ys = []")
    case True
    then have "\<not> (\<exists>k \<in> dom m. k \<le> h)"
      unfolding ys_def dom by (auto simp: filter_empty_conv)
    with True run show ?thesis unfolding m_def by simp
  next
    case False
    obtain k r where kr: "last ys = (k, r)" by (cases "last ys")
    from False kr have in_ys: "(k, r) \<in> set ys" by (metis last_in_set)
    then have in_xs: "(k, r) \<in> set xs" and kh: "k \<le> h" unfolding ys_def by auto
    from in_xs dist m have mk: "m k = Some r" by (metis map_of_eq_Some_iff)
    have "sorted_wrt (<) (map fst ys)"
      using asc unfolding ys_def xs_def m_def by (simp add: sorted_wrt_map sorted_wrt_filter)
    then have "sorted (map fst ys)" by (rule strict_sorted_imp_sorted)
    then have le_last: "\<forall>k' \<in> set (map fst ys). k' \<le> last (map fst ys)"
      using sorted_le_last by blast
    from False kr have "last (map fst ys) = k" by (simp add: last_map)
    with le_last have upper: "\<forall>k' \<in> fst ` set ys. k' \<le> k" by simp
    have set_eq: "{k' \<in> dom m. k' \<le> h} = fst ` set ys"
      unfolding dom ys_def by force
    have "Max (fst ` set ys) = k"
    proof (rule Max_eqI)
      show "finite (fst ` set ys)" by simp
      show "\<And>y. y \<in> fst ` set ys \<Longrightarrow> y \<le> k" using upper by blast
      show "k \<in> fst ` set ys" using in_ys by force
    qed
    with set_eq have mx: "Max {k' \<in> dom m. k' \<le> h} = k" by simp
    have ex: "\<exists>k \<in> dom m. k \<le> h" using mk kh by auto
    from False kr have "GetReward order config h = r"
      unfolding run by (cases ys) simp_all
    with mx ex mk show ?thesis unfolding m_def [symmetric] by simp
  qed
qed

section \<open>The reward resolver\<close>

text \<open>
  C1. The claim: for a schedule with strictly increasing heights and a height \<open>h \<ge> 0\<close>,
  the resolver returns the reward of the breakpoint with the largest height at or below
  \<open>h\<close>. The code does so only when the map happens to be visited in ascending order
  (\<open>GetReward_ascending_visit\<close>). On the mainnet schedule at height 150000 the breakpoints
  at or below the height are 0 and 100000, so the claimed result is 25; a loop that is
  handed the entry of height 300000 first leaves at once and \<^verbatim>\<open>GetReward\<close> returns 0.
\<close>

theorem GetReward_mainnet_last_first_visit:
  "range_order (BlockReward ZetherNetwork) (last_first_visit (BlockReward ZetherNetwork))
   \<and> GetReward last_first_visit ZetherNetwork 150000 = 0
   \<and> {k \<in> dom (BlockReward ZetherNetwork). k \<le> 150000} = {0, 100000}
   \<and> BlockReward ZetherNetwork 100000 = Some 25"
proof -
  have "range_order (BlockReward ZetherNetwork) (last_first_visit (BlockReward ZetherNetwork))"
    using range_order_last_first_visit by (simp add: ZetherNetwork_def)
  moreover have "GetReward last_first_visit ZetherNetwork 150000 = 0"
    by (simp add: GetReward_def last_first_visit_def)
  moreover have "{k \<in> dom (BlockReward ZetherNetwork). k \<le> 150000} = {0, 100000}"
    by (auto simp: ZetherNetwork_def ZetherRewards_def)
  moreover have "BlockReward ZetherNetwork 100000 = Some 25"
    by (simp add: ZetherNetwork_def ZetherRewards_def)
  ultimately show ?thesis by blast
qed

text \<open>A map with one entry leaves the loop a single order.\<close>

lemma range_order_late_start_only:
  assumes "range_order (BlockReward late_start) xs"
  shows "xs = [(10, 50)]"
proof -
  from assms have dist: "distinct (map fst xs)" and m: "map_of xs = [10 \<mapsto> 50]"
    by (simp_all add: range_order_def late_start_def)
  from m have keys: "fst ` set xs = {10}"
    by (metis dom_map_of_conv_image_fst dom_eq_singleton_conv)
  then obtain x rest where xs: "xs = x # rest" by (cases xs) auto
  obtain k r where x: "x = (k, r)" by (cases x)
  from keys xs x have k: "k = 10" by auto
  have "rest = []"
  proof (cases rest)
    case (Cons y ys)
    obtain k' r' where y: "y = (k', r')" by (cases y)
    from keys xs Cons y have "k' = 10" by auto
    with dist xs x k Cons y show ?thesis by simp
  qed simp
  moreover have "r = 50"
  proof -
    from m xs x k have "map_of ((10, r) # rest) 10 = [10 \<mapsto> (50::real)] 10" by simp
    then show ?thesis by simp
  qed
  ultimately show ?thesis using xs x k by simp
qed

text \<open>
  Below the first breakpoint the result is the initial 0, whatever follows: the schedule
  \<open>late_start\<close> has the single breakpoint (10, 50), its loop has one possible order, and
  the reward is 0 at height 5 and 50 at height 10.
\<close>

lemma GetReward_rises_at_first_breakpoint:
  "range_order (BlockReward late_start) (only_visit (BlockReward late_start))
   \<and> GetReward only_visit late_start 5 = 0
   \<and> GetReward only_visit late_start 10 = 50"
proof -
  have "range_order (BlockReward late_start) (only_visit (BlockReward late_start))"
    by (rule range_order_only_visit)
  moreover have "GetReward only_visit late_start 5 = 0"
    and "GetReward only_visit late_start 10 = 50"
    by (simp_all add: GetReward_def only_visit_def)
  ultimately show ?thesis by simp
qed

text \<open>
  From the first breakpoint on, a loop that visits the breakpoints in ascending order of
  height gives a non-increasing reward when the rewards of the schedule are
  non-increasing.
\<close>

lemma GetReward_decaying_ascending_visit:
  assumes ord: "range_order (BlockReward config) (order (BlockReward config))"
    and asc: "sorted_wrt (<) (map fst (order (BlockReward config)))"
    and dec: "sorted_wrt (\<ge>) (map snd (order (BlockReward config)))"
    and h: "h1 \<le> h2"
    and low: "\<exists>k \<in> dom (BlockReward config). k \<le> h1"
  shows "GetReward order config h1 \<ge> GetReward order config h2"
proof -
  define xs where "xs = order (BlockReward config)"
  from ord have keys: "dom (BlockReward config) = fst ` set xs"
    unfolding range_order_def xs_def by (metis dom_map_of_conv_image_fst)
  with low obtain k0 r0 rest where xs: "xs = (k0, r0) # rest"
    by (cases xs) auto
  from low keys obtain k where k: "k \<in> fst ` set xs" "k \<le> h1"
    by auto
  from asc have "\<forall>k \<in> fst ` set rest. k0 < k"
    unfolding xs_def [symmetric] xs by auto
  with k xs have k0: "k0 \<le> h1" by auto
  from dec have "sorted_wrt (\<ge>) (map snd rest)" and "\<forall>r \<in> snd ` set rest. r \<le> r0"
    unfolding xs_def [symmetric] xs by auto
  from GetReward_loop_decaying [OF this h] k0 h show ?thesis
    unfolding GetReward_def xs_def [symmetric] xs by simp
qed

text \<open>
  C2. The claim: for a schedule with strictly increasing heights and non-increasing
  rewards, \<open>h1 \<le> h2\<close> gives a reward at \<open>h1\<close> that is at least the reward at \<open>h2\<close>. The
  mainnet schedule is such a schedule (its entries in ascending order are listed by
  \<open>ascending_visit\<close>), and its first breakpoint is at height 0. A loop that is handed the
  entry of height 100000 first leaves at once at height 50000 and returns 0, and returns
  25 at height 150000: the reward rises with the height.
\<close>

theorem GetReward_mainnet_rises_with_height:
  "range_order (BlockReward ZetherNetwork) (ascending_visit (BlockReward ZetherNetwork))
   \<and> sorted_wrt (<) (map fst (ascending_visit (BlockReward ZetherNetwork)))
   \<and> sorted_wrt (\<ge>) (map snd (ascending_visit (BlockReward ZetherNetwork)))
   \<and> BlockReward ZetherNetwork 0 = Some 50
   \<and> range_order (BlockReward ZetherNetwork) (second_first_visit (BlockReward ZetherNetwork))
   \<and> (0::int) \<le> 50000 \<and> (50000::int) \<le> 150000
   \<and> GetReward second_first_visit ZetherNetwork 50000 = 0
   \<and> GetReward second_first_visit ZetherNetwork 150000 = 25
   \<and> \<not> GetReward second_first_visit ZetherNetwork 50000
        \<ge> GetReward second_first_visit ZetherNetwork 150000"
proof -
  have m: "BlockReward ZetherNetwork = ZetherRewards" by (simp add: ZetherNetwork_def)
  have "range_order (BlockReward ZetherNetwork) (ascending_visit (BlockReward ZetherNetwork))"
    and "range_order (BlockReward ZetherNetwork) (second_first_visit (BlockReward ZetherNetwork))"
    using range_order_ascending_visit range_order_second_first_visit by (simp_all add: m)
  moreover have "sorted_wrt (<) (map fst (ascending_visit (BlockReward ZetherNetwork)))"
    and "sorted_wrt (\<ge>) (map snd (ascending_visit (BlockReward ZetherNetwork)))"
    by (simp_all add: ascending_visit_def)
  moreover have "BlockReward ZetherNetwork 0 = Some 50"
    by (simp add: m ZetherRewards_def)
  moreover have "GetReward second_first_visit ZetherNetwork 50000 = 0"
    and "GetReward second_first_visit ZetherNetwork 150000 = 25"
    by (simp_all add: GetReward_def second_first_visit_def)
  ultimately show ?thesis by simp
qed

text \<open>
  C3. The claim: two evaluations of the resolver on the same schedule and height give the
  same reward, whatever the order in which the breakpoints are traversed. The code's
  result follows the order in which the loop is handed the entries of the map: on the
  mainnet schedule at height 300000, three orders of the same map give 6.25, 12.5 and 50.
\<close>

theorem GetReward_depends_on_visit_order:
  "range_order (BlockReward ZetherNetwork) (ascending_visit (BlockReward ZetherNetwork))
   \<and> range_order (BlockReward ZetherNetwork) (last_first_visit (BlockReward ZetherNetwork))
   \<and> range_order (BlockReward ZetherNetwork) (second_first_visit (BlockReward ZetherNetwork))
   \<and> GetReward ascending_visit ZetherNetwork 300000 = 6.25
   \<and> GetReward last_first_visit ZetherNetwork 300000 = 12.5
   \<and> GetReward second_first_visit ZetherNetwork 300000 = 50
   \<and> GetReward ascending_visit ZetherNetwork 300000 \<noteq> GetReward last_first_visit ZetherNetwork 300000"
proof -
  have m: "BlockReward ZetherNetwork = ZetherRewards" by (simp add: ZetherNetwork_def)
  have "range_order (BlockReward ZetherNetwork) (ascending_visit (BlockReward ZetherNetwork))"
    and "range_order (BlockReward ZetherNetwork) (last_first_visit (BlockReward ZetherNetwork))"
    and "range_order (BlockReward ZetherNetwork) (second_first_visit (BlockReward ZetherNetwork))"
    using range_order_ascending_visit range_order_last_first_visit range_order_second_first_visit
    by (simp_all add: m)
  moreover have "GetReward ascending_visit ZetherNetwork 300000 = 6.25"
    and "GetReward last_first_visit ZetherNetwork 300000 = 12.5"
    and "GetReward second_first_visit ZetherNetwork 300000 = 50"
    by (simp_all add: GetReward_def ascending_visit_def last_first_visit_def second_first_visit_def)
  ultimately show ?thesis by simp
qed

text \<open>
  C4. The claim: the resolver fails with an invalid-argument error on a negative height
  instead of returning a reward. \<^verbatim>\<open>GetReward\<close> has no such check and no error result:
  on the mainnet schedule at height -1 it returns the reward 0.
\<close>

theorem GetReward_negative_height_returns:
  "range_order (BlockReward ZetherNetwork) (ascending_visit (BlockReward ZetherNetwork))
   \<and> GetReward ascending_visit ZetherNetwork (- 1) = 0
   \<and> GetReward last_first_visit ZetherNetwork (- 1) = 0
   \<and> GetReward second_first_visit ZetherNetwork (- 1) = 0"
proof -
  have "range_order (BlockReward ZetherNetwork) (ascending_visit (BlockReward ZetherNetwork))"
    using range_order_ascending_visit by (simp add: ZetherNetwork_def)
  then show ?thesis
    by (simp add: GetReward_def ascending_visit_def last_first_visit_def second_first_visit_def)
qed

text \<open>
  C4, amended. The check of the height is in the caller: \<^verbatim>\<open>SimulateUnlock\<close> ends the
  process with the fatal log \<^verbatim>\<open>Invalid block height\<close> for every negative height, before
  \<^verbatim>\<open>GetReward\<close> is called, and prints the value of \<^verbatim>\<open>GetReward\<close> for every other
  height. \<^verbatim>\<open>GetReward\<close> itself returns a reward for a negative height: 0 when no
  breakpoint of the schedule lies below height 0.
\<close>

theorem SimulateUnlock_rejects_negative_height:
  "(blockHeight < 0 \<longrightarrow>
      SimulateUnlock order config blockHeight = Inl (Invalid_block_height blockHeight))
   \<and> (0 \<le> blockHeight \<longrightarrow>
        (\<exists>out. SimulateUnlock order config blockHeight = Inr out
           \<and> Block_Reward (GetReward order config blockHeight) \<in> set out))
   \<and> (blockHeight < 0 \<and> range_order (BlockReward config) (order (BlockReward config))
        \<and> (\<forall>k \<in> dom (BlockReward config). 0 \<le> k) \<longrightarrow>
        GetReward order config blockHeight = 0)"
proof (intro conjI impI)
  assume "blockHeight < 0"
  then show "SimulateUnlock order config blockHeight = Inl (Invalid_block_height blockHeight)"
    by (simp add: SimulateUnlock_def)
next
  assume "0 \<le> blockHeight"
  then show "\<exists>out. SimulateUnlock order config blockHeight = Inr out
      \<and> Block_Reward (GetReward order config blockHeight) \<in> set out"
    by (simp add: SimulateUnlock_def Let_def)
next
  assume a: "blockHeight < 0 \<and> range_order (BlockReward config) (order (BlockReward config))
      \<and> (\<forall>k \<in> dom (BlockReward config). 0 \<le> k)"
  define xs where "xs = order (BlockReward config)"
  from a have "dom (BlockReward config) = fst ` set xs"
    unfolding range_order_def xs_def by (metis dom_map_of_conv_image_fst)
  with a have above: "\<forall>k \<in> fst ` set xs. blockHeight < k" by auto
  have "GetReward_loop xs blockHeight 0 = 0"
  proof (cases xs)
    case Nil
    then show ?thesis by simp
  next
    case (Cons x rest)
    obtain k r where x: "x = (k, r)" by (cases x)
    with Cons above have "blockHeight < k" by auto
    with Cons x show ?thesis by simp
  qed
  then show "GetReward order config blockHeight = 0"
    by (simp add: GetReward_def xs_def)
qed

theorem SimulateUnlock_rejects_negative_height_witness:
  "SimulateUnlock ascending_visit ZetherNetwork (- 1) = Inl (Invalid_block_height (- 1))
   \<and> GetReward ascending_visit ZetherNetwork (- 1) = 0
   \<and> (\<exists>out. SimulateUnlock ascending_visit ZetherNetwork 50000 = Inr out
        \<and> Block_Reward (GetReward ascending_visit ZetherNetwork 50000) \<in> set out)"
proof -
  have m: "BlockReward ZetherNetwork = ZetherRewards" by (simp add: ZetherNetwork_def)
  have ord: "range_order (BlockReward ZetherNetwork) (ascending_visit (BlockReward ZetherNetwork))"
    using range_order_ascending_visit by (simp add: m)
  have keys: "\<forall>k \<in> dom (BlockReward ZetherNetwork). 0 \<le> k"
    by (simp add: m ZetherRewards_def)
  from SimulateUnlock_rejects_negative_height [of "- 1" ascending_visit ZetherNetwork] ord keys
  have "SimulateUnlock ascending_visit ZetherNetwork (- 1) = Inl (Invalid_block_height (- 1))"
    and "GetReward ascending_visit ZetherNetwork (- 1) = 0"
    by simp_all
  moreover from SimulateUnlock_rejects_negative_height [of 50000 ascending_visit ZetherNetwork]
  have "\<exists>out. SimulateUnlock ascending_visit ZetherNetwork 50000 = Inr out
        \<and> Block_Reward (GetReward ascending_visit ZetherNetwork 50000) \<in> set out"
    by simp
  ultimately show ?thesis by blast
qed

text \<open>
  C5. The claim: on the mainnet schedule the resolver gives 50 at height 50000, 25 at
  150000, 6.25 at 300000 and 6.25 at 1000000. Those are the results of an ascending
  visit. A loop that is handed the entry of height 100000 first and the entry of height 0
  last gives 0, 25, 50 and 50.
\<close>

theorem GetReward_mainnet_second_first_visit:
  "range_order (BlockReward ZetherNetwork) (second_first_visit (BlockReward ZetherNetwork))
   \<and> GetReward second_first_visit ZetherNetwork 50000 = 0
   \<and> GetReward second_first_visit ZetherNetwork 150000 = 25
   \<and> GetReward second_first_visit ZetherNetwork 300000 = 50
   \<and> GetReward second_first_visit ZetherNetwork 1000000 = 50"
proof -
  have "range_order (BlockReward ZetherNetwork) (second_first_visit (BlockReward ZetherNetwork))"
    using range_order_second_first_visit by (simp add: ZetherNetwork_def)
  then show ?thesis
    by (simp add: GetReward_def second_first_visit_def)
qed

text \<open>The same four heights when the loop visits the schedule in ascending order.\<close>

lemma GetReward_mainnet_ascending_visit:
  "GetReward ascending_visit ZetherNetwork 50000 = 50
   \<and> GetReward ascending_visit ZetherNetwork 150000 = 25
   \<and> GetReward ascending_visit ZetherNetwork 300000 = 6.25
   \<and> GetReward ascending_visit ZetherNetwork 1000000 = 6.25"
  by (simp add: GetReward_def ascending_visit_def)

section \<open>The commands of the client\<close>

lemma transmit_store [simp]: "store (snd (transmit c)) = store c"
  by (simp add: transmit_def split: list.splits)

lemma reaches_server_Suc:
  "reaches_server (Suc n) c \<longleftrightarrow> fst (transmit c) = None \<and> reaches_server n (snd (transmit c))"
  by (auto simp: reaches_server_def transmit_def split: list.splits)

lemma reaches_server_0 [simp]: "reaches_server 0 c"
  by (simp add: reaches_server_def)

lemma client_Get_store [simp]: "store (snd (client_Get c key)) = store c"
proof -
  obtain f c' where t: "transmit c = (f, c')" by (cases "transmit c")
  with transmit_store [of c] have "store c' = store c" by simp
  with t show ?thesis by (simp add: client_Get_def split: option.splits)
qed

lemma client_Get_reached:
  assumes "reaches_server (Suc n) c"
  shows "fst (client_Get c key) =
           (case map_of (store c) key of None \<Rightarrow> ([], Some redis_Nil) | Some val \<Rightarrow> (val, None))"
    and "reaches_server n (snd (client_Get c key))"
proof -
  obtain f c' where t: "transmit c = (f, c')" by (cases "transmit c")
  from assms t have f: "f = None" and r: "reaches_server n c'"
    by (simp_all add: reaches_server_Suc)
  from transmit_store [of c] t have s: "store c' = store c" by simp
  from t f s show "fst (client_Get c key) =
           (case map_of (store c) key of None \<Rightarrow> ([], Some redis_Nil) | Some val \<Rightarrow> (val, None))"
    by (simp add: client_Get_def split: option.splits)
  from t f r show "reaches_server n (snd (client_Get c key))"
    by (simp add: client_Get_def split: option.splits)
qed

lemma client_Get_fault:
  assumes "fst (transmit c) = Some err"
  shows "fst (client_Get c key) = ([], Some err)"
  using assms by (cases "transmit c") (simp add: client_Get_def)

lemma client_Get_later:
  "fst (transmit c) = None \<Longrightarrow>
   reaches_server n (snd (client_Get c key)) = reaches_server n (snd (transmit c))"
  by (cases "transmit c") (simp add: client_Get_def split: option.splits)

lemma client_Keys_reached:
  assumes "reaches_server (Suc n) c"
  shows "fst (client_Keys c pattern) = (filter (glob_match pattern) (map fst (store c)), None)"
    and "reaches_server n (snd (client_Keys c pattern))"
    and "store (snd (client_Keys c pattern)) = store c"
proof -
  obtain f c' where t: "transmit c = (f, c')" by (cases "transmit c")
  from assms t have f: "f = None" and r: "reaches_server n c'"
    by (simp_all add: reaches_server_Suc)
  from transmit_store [of c] t have s: "store c' = store c" by simp
  from t f s
  show "fst (client_Keys c pattern) = (filter (glob_match pattern) (map fst (store c)), None)"
    by (simp add: client_Keys_def)
  from t f r show "reaches_server n (snd (client_Keys c pattern))"
    by (simp add: client_Keys_def)
  from t f s show "store (snd (client_Keys c pattern)) = store c"
    by (simp add: client_Keys_def)
qed

lemma client_Set_reached:
  assumes "reaches_server (Suc n) c"
  shows "fst (client_Set c key val) = None"
    and "reaches_server n (snd (client_Set c key val))"
    and "store (snd (client_Set c key val)) = AList.update key val (store c)"
proof -
  obtain f c' where t: "transmit c = (f, c')" by (cases "transmit c")
  from assms t have f: "f = None" and r: "reaches_server n c'"
    by (simp_all add: reaches_server_Suc)
  from transmit_store [of c] t have s: "store c' = store c" by simp
  from t f show "fst (client_Set c key val) = None"
    by (simp add: client_Set_def)
  from t f r show "reaches_server n (snd (client_Set c key val))"
    by (simp add: client_Set_def reaches_server_def)
  from t f s show "store (snd (client_Set c key val)) = AList.update key val (store c)"
    by (simp add: client_Set_def)
qed

lemma client_Del_reached:
  assumes "reaches_server (Suc n) c"
  shows "fst (client_Del c key) = None"
    and "reaches_server n (snd (client_Del c key))"
    and "store (snd (client_Del c key)) = AList.delete key (store c)"
proof -
  obtain f c' where t: "transmit c = (f, c')" by (cases "transmit c")
  from assms t have f: "f = None" and r: "reaches_server n c'"
    by (simp_all add: reaches_server_Suc)
  from transmit_store [of c] t have s: "store c' = store c" by simp
  from t f show "fst (client_Del c key) = None"
    by (simp add: client_Del_def)
  from t f r show "reaches_server n (snd (client_Del c key))"
    by (simp add: client_Del_def reaches_server_def)
  from t f s show "store (snd (client_Del c key)) = AList.delete key (store c)"
    by (simp add: client_Del_def)
qed

lemma client_Del_success:
  "fst (client_Del c key) = None \<Longrightarrow> map_of (store (snd (client_Del c key))) key = None"
  by (cases "transmit c") (auto simp: client_Del_def delete_conv split: option.splits)

lemma client_Del_absent:
  assumes "map_of (store c) key = None" and "reaches_server (Suc n) c"
  shows "fst (client_Del c key) = None"
    and "store (snd (client_Del c key)) = store c"
    and "reaches_server n (snd (client_Del c key))"
proof -
  from assms(1) have "key \<notin> fst ` set (store c)" by (simp add: map_of_eq_None_iff)
  then have "AList.delete key (store c) = store c" by simp
  with client_Del_reached [OF assms(2), of key]
  show "fst (client_Del c key) = None"
    and "store (snd (client_Del c key)) = store c"
    and "reaches_server n (snd (client_Del c key))" by simp_all
qed

section \<open>The pending payment ledger\<close>

lemma GetPendingPayments_loop_success:
  "reaches_server (length keys) c \<Longrightarrow> \<forall>key \<in> set keys. decodes u c key \<Longrightarrow>
   fst (GetPendingPayments_loop u c keys acc) =
     (Some (acc @ map (\<lambda>key. fst (u (stored c key))) keys), None)"
proof (induction keys arbitrary: c acc)
  case Nil
  then show ?case by simp
next
  case (Cons key keys)
  obtain r c' where g: "client_Get c key = (r, c')" by (cases "client_Get c key")
  from Cons.prems(1) have reach: "reaches_server (Suc (length keys)) c" by simp
  from Cons.prems(2) obtain val where val: "map_of (store c) key = Some val"
    and dec: "snd (u val) = None"
    by (auto simp: decodes_def stored_def)
  from client_Get_reached [OF reach, of key] g val have r: "r = (val, None)"
    and reach': "reaches_server (length keys) c'" by simp_all
  from client_Get_store [of c key] g have st: "store c' = store c" by simp
  obtain p where p: "u val = (p, None)" using dec by (cases "u val") simp
  from Cons.prems(2) st have "\<forall>key \<in> set keys. decodes u c' key"
    by (simp add: decodes_def stored_def)
  from Cons.IH [OF reach' this, of "acc @ [p]"] g r p st val
  show ?case by (simp add: stored_def)
qed

lemma GetPendingPayments_loop_failure:
  "\<not> (reaches_server (length keys) c \<and> (\<forall>key \<in> set keys. decodes u c key)) \<Longrightarrow>
   fst (fst (GetPendingPayments_loop u c keys acc)) = None \<and>
   snd (fst (GetPendingPayments_loop u c keys acc)) \<noteq> None"
proof (induction keys arbitrary: c acc)
  case Nil
  then show ?case by simp
next
  case (Cons key keys)
  obtain val e c' where g: "client_Get c key = ((val, e), c')"
    by (cases "client_Get c key") auto
  from client_Get_store [of c key] g have st: "store c' = store c" by simp
  show ?case
  proof (cases e)
    case (Some err)
    with g show ?thesis by simp
  next
    case None
    note e = this
    obtain p d where u: "u val = (p, d)" by (cases "u val")
    show ?thesis
    proof (cases d)
      case (Some err)
      with g e u show ?thesis by simp
    next
      case None
      have t: "fst (transmit c) = None"
      proof (cases "fst (transmit c)")
        case (Some err)
        from client_Get_fault [OF this, of key] g e show ?thesis by simp
      qed simp
      have reach_eq: "reaches_server (Suc (length keys)) c = reaches_server (length keys) c'"
        using client_Get_later [OF t, of "length keys" key] g t
        by (simp add: reaches_server_Suc)
      have val: "map_of (store c) key = Some val"
        using g e t st by (cases "transmit c") (auto simp: client_Get_def split: option.splits)
      with u None have "decodes u c key" by (simp add: decodes_def stored_def)
      with Cons.prems reach_eq st
      have "\<not> (reaches_server (length keys) c' \<and> (\<forall>key \<in> set keys. decodes u c' key))"
        by (auto simp: decodes_def stored_def)
      from Cons.IH [OF this, of "acc @ [p]"] g e u None show ?thesis by simp
    qed
  qed
qed

lemma pending_keys_stored: "key \<in> set (pending_keys c) \<Longrightarrow> map_of (store c) key \<noteq> None"
  by (auto simp: pending_keys_def map_of_eq_None_iff)

lemma GetPendingPayments_success:
  assumes reach: "reaches_server (Suc (length (pending_keys c))) c"
    and dec: "\<forall>key \<in> set (pending_keys c). snd (unmarshal (stored c key)) = None"
  shows "fst (GetPendingPayments unmarshal c) =
     (Some (map (\<lambda>key. fst (unmarshal (stored c key))) (pending_keys c)), None)"
proof -
  obtain r c' where k: "client_Keys c ''pending_payment:*'' = (r, c')"
    by (cases "client_Keys c ''pending_payment:*''")
  from client_Keys_reached [OF reach, of "''pending_payment:*''"] k
  have r: "r = (pending_keys c, None)" and reach': "reaches_server (length (pending_keys c)) c'"
    and st: "store c' = store c"
    by (simp_all add: pending_keys_def)
  from dec st have "\<forall>key \<in> set (pending_keys c). decodes unmarshal c' key"
    using pending_keys_stored [of _ c] by (simp add: decodes_def stored_def)
  from GetPendingPayments_loop_success [OF reach' this, of "[]"] k r st show ?thesis
    by (simp add: GetPendingPayments_def stored_def)
qed

lemma GetPendingPayments_failure:
  assumes "\<not> (reaches_server (Suc (length (pending_keys c))) c \<and>
              (\<forall>key \<in> set (pending_keys c). snd (unmarshal (stored c key)) = None))"
  shows "fst (fst (GetPendingPayments unmarshal c)) = None \<and>
         snd (fst (GetPendingPayments unmarshal c)) \<noteq> None"
proof (cases "fst (transmit c)")
  case (Some err)
  then show ?thesis
    by (cases "transmit c") (simp add: GetPendingPayments_def client_Keys_def)
next
  case None
  obtain f c' where t: "transmit c = (f, c')" by (cases "transmit c")
  with None have f: "f = None" by simp
  from transmit_store [of c] t have st: "store c' = store c" by simp
  from t f st have k: "client_Keys c ''pending_payment:*'' = ((pending_keys c, None), c')"
    by (simp add: client_Keys_def pending_keys_def)
  from assms t f st
  have "\<not> (reaches_server (length (pending_keys c)) c' \<and>
            (\<forall>key \<in> set (pending_keys c). decodes unmarshal c' key))"
    by (auto simp: reaches_server_Suc decodes_def stored_def)
  from GetPendingPayments_loop_failure [OF this, of "[]"] k show ?thesis
    by (simp add: GetPendingPayments_def)
qed

lemma sample_keys:
  "glob_match ''pending_payment:*'' ''pending_payment:0xabc''"
  "glob_match ''pending_payment:*'' ''pending_payment:0xdef''"
  "\<not> glob_match ''pending_payment:*'' ''payouts_locked''"
  by simp_all

lemma sample_decode:
  "sample_Unmarshal sample_json = (sample_payment, None)"
  "snd (sample_Unmarshal ''oops'') \<noteq> None"
  by (simp_all add: sample_Unmarshal_def sample_json_def quoted_def)

text \<open>
  C6. The listing is fail-fast. Let the keys of the listing be the keys of the store that
  match \<^verbatim>\<open>pending_payment:*\<close>. When the \<^verbatim>\<open>KEYS\<close> command and the \<^verbatim>\<open>GET\<close> of every
  such key reach the server, and the text of every such key decodes, the result is the
  list of all the decoded payments and no error. In every other case, whichever fetch or
  decoding fails, the result is the \<^verbatim>\<open>nil\<close> slice and an error: no partial list.
\<close>

theorem GetPendingPayments_fail_fast:
  "(if reaches_server (Suc (length (pending_keys c))) c \<and>
       (\<forall>key \<in> set (pending_keys c). snd (unmarshal (stored c key)) = None)
    then fst (GetPendingPayments unmarshal c) =
           (Some (map (\<lambda>key. fst (unmarshal (stored c key))) (pending_keys c)), None)
    else fst (fst (GetPendingPayments unmarshal c)) = None \<and>
         snd (fst (GetPendingPayments unmarshal c)) \<noteq> None)"
  using GetPendingPayments_success [of c unmarshal] GetPendingPayments_failure [of c unmarshal]
  by (simp del: split_paired_All)

theorem GetPendingPayments_fail_fast_witness:
  "fst (GetPendingPayments sample_Unmarshal ledger_ok) = (Some [sample_payment], None)
   \<and> fst (fst (GetPendingPayments sample_Unmarshal ledger_bad_text)) = None
   \<and> snd (fst (GetPendingPayments sample_Unmarshal ledger_bad_text)) \<noteq> None
   \<and> fst (fst (GetPendingPayments sample_Unmarshal ledger_timeout)) = None
   \<and> snd (fst (GetPendingPayments sample_Unmarshal ledger_timeout)) \<noteq> None"
proof -
  have keys: "pending_keys ledger_ok = [''pending_payment:0xabc'']"
    "pending_keys ledger_bad_text = [''pending_payment:0xabc'', ''pending_payment:0xdef'']"
    "pending_keys ledger_timeout = [''pending_payment:0xabc'']"
    using sample_keys
    by (simp_all add: pending_keys_def ledger_ok_def ledger_bad_text_def ledger_timeout_def)
  have held: "stored ledger_ok ''pending_payment:0xabc'' = sample_json"
    "stored ledger_bad_text ''pending_payment:0xabc'' = sample_json"
    "stored ledger_bad_text ''pending_payment:0xdef'' = ''oops''"
    by (simp_all add: stored_def ledger_ok_def ledger_bad_text_def)
  have reach: "reaches_server (Suc (Suc 0)) ledger_ok"
    "reaches_server (Suc (Suc (Suc 0))) ledger_bad_text"
    "\<not> reaches_server (Suc (Suc 0)) ledger_timeout"
    by (simp_all add: reaches_server_def ledger_ok_def ledger_bad_text_def ledger_timeout_def)
  have "fst (GetPendingPayments sample_Unmarshal ledger_ok) = (Some [sample_payment], None)"
    using GetPendingPayments_fail_fast [of ledger_ok sample_Unmarshal]
    by (simp add: keys held reach sample_decode)
  moreover have "fst (fst (GetPendingPayments sample_Unmarshal ledger_bad_text)) = None
     \<and> snd (fst (GetPendingPayments sample_Unmarshal ledger_bad_text)) \<noteq> None"
    using GetPendingPayments_fail_fast [of ledger_bad_text sample_Unmarshal] sample_decode(2)
    by (simp add: keys held reach)
  moreover have "fst (fst (GetPendingPayments sample_Unmarshal ledger_timeout)) = None
     \<and> snd (fst (GetPendingPayments sample_Unmarshal ledger_timeout)) \<noteq> None"
    using GetPendingPayments_fail_fast [of ledger_timeout sample_Unmarshal]
    by (simp add: keys reach)
  ultimately show ?thesis by blast
qed

section \<open>The payout lock\<close>

lemma IsPayoutsLocked_reached:
  assumes "reaches_server (Suc n) c"
  shows "fst (IsPayoutsLocked c) = (map_of (store c) ''payouts_locked'' = Some ''1'', None)"
    and "reaches_server n (snd (IsPayoutsLocked c))"
    and "store (snd (IsPayoutsLocked c)) = store c"
proof -
  obtain r c' where g: "client_Get c ''payouts_locked'' = (r, c')"
    by (cases "client_Get c ''payouts_locked''")
  from client_Get_reached [OF assms, of "''payouts_locked''"] g
  have r: "r = (case map_of (store c) ''payouts_locked'' of
             None \<Rightarrow> ([], Some redis_Nil) | Some val \<Rightarrow> (val, None))"
    and reach: "reaches_server n c'" by simp_all
  from client_Get_store [of c "''payouts_locked''"] g have st: "store c' = store c" by simp
  from g r show "fst (IsPayoutsLocked c) = (map_of (store c) ''payouts_locked'' = Some ''1'', None)"
    by (simp add: IsPayoutsLocked_def split: option.splits)
  from g r reach show "reaches_server n (snd (IsPayoutsLocked c))"
    by (simp add: IsPayoutsLocked_def split: option.splits)
  from g r st show "store (snd (IsPayoutsLocked c)) = store c"
    by (simp add: IsPayoutsLocked_def split: option.splits)
qed

lemma IsPayoutsLocked_fault:
  assumes "faults c = Some err # fs"
  shows "fst (IsPayoutsLocked c) =
     (if errors_Is_Nil err then (False, None)
      else (False, Some (Errorf ''failed to check payouts lock'' err)))"
  using assms by (simp add: IsPayoutsLocked_def client_Get_def transmit_def)

text \<open>
  C7. The lock check is fail-open on a missing key and fail-closed on a store failure.
  From a store without the key \<^verbatim>\<open>payouts_locked\<close>, with the commands reaching the server:
  the check returns false and no error; after \<^verbatim>\<open>SET payouts_locked 1\<close> it returns true;
  after \<^verbatim>\<open>DEL payouts_locked\<close> it returns false again. And when the \<^verbatim>\<open>GET\<close> fails with an
  error that is not \<^verbatim>\<open>redis.Nil\<close>, the check returns that error, wrapped, and not a
  plain false.
\<close>

theorem IsPayoutsLocked_fail_open_fail_closed:
  "(map_of (store c) ''payouts_locked'' = None \<and> reaches_server 5 c \<longrightarrow>
      fst (IsPayoutsLocked c) = (False, None) \<and>
      (let c1 = snd (IsPayoutsLocked c);
           c2 = snd (client_Set c1 ''payouts_locked'' ''1'');
           c3 = snd (IsPayoutsLocked c2);
           c4 = snd (client_Del c3 ''payouts_locked'')
       in fst (IsPayoutsLocked c2) = (True, None) \<and> fst (IsPayoutsLocked c4) = (False, None)))
   \<and> (faults c = Some err # fs \<and> \<not> errors_Is_Nil err \<longrightarrow>
      fst (IsPayoutsLocked c) = (False, Some (Errorf ''failed to check payouts lock'' err)))"
proof (intro conjI impI)
  assume "faults c = Some err # fs \<and> \<not> errors_Is_Nil err"
  then show "fst (IsPayoutsLocked c) = (False, Some (Errorf ''failed to check payouts lock'' err))"
    using IsPayoutsLocked_fault [of c err fs] by simp
next
  assume a: "map_of (store c) ''payouts_locked'' = None \<and> reaches_server 5 c"
  then have r5: "reaches_server (Suc 4) c" by simp
  from IsPayoutsLocked_reached(1) [OF r5] a
  show "fst (IsPayoutsLocked c) = (False, None)" by simp
next
  assume a: "map_of (store c) ''payouts_locked'' = None \<and> reaches_server 5 c"
  define c1 where "c1 = snd (IsPayoutsLocked c)"
  define c2 where "c2 = snd (client_Set c1 ''payouts_locked'' ''1'')"
  define c3 where "c3 = snd (IsPayoutsLocked c2)"
  define c4 where "c4 = snd (client_Del c3 ''payouts_locked'')"
  from a have r5: "reaches_server (Suc 4) c" by simp
  have r4: "reaches_server (Suc 3) c1"
    using IsPayoutsLocked_reached(2) [OF r5] by (simp add: c1_def eval_nat_numeral)
  have r3: "reaches_server (Suc 2) c2"
    using client_Set_reached(2) [OF r4] by (simp add: c2_def eval_nat_numeral)
  have s2: "store c2 = AList.update ''payouts_locked'' ''1'' (store c1)"
    using client_Set_reached(3) [OF r4] by (simp add: c2_def)
  have r2: "reaches_server (Suc 1) c3"
    using IsPayoutsLocked_reached(2) [OF r3] by (simp add: c3_def eval_nat_numeral)
  have s3: "store c3 = store c2"
    using IsPayoutsLocked_reached(3) [OF r3] by (simp add: c3_def)
  have r1: "reaches_server (Suc 0) c4"
    using client_Del_reached(2) [OF r2] by (simp add: c4_def)
  have s4: "store c4 = AList.delete ''payouts_locked'' (store c3)"
    using client_Del_reached(3) [OF r2] by (simp add: c4_def)
  have "fst (IsPayoutsLocked c2) = (True, None)"
    using IsPayoutsLocked_reached(1) [OF r3] s2 by (simp add: update_conv)
  moreover have "fst (IsPayoutsLocked c4) = (False, None)"
    using IsPayoutsLocked_reached(1) [OF r1] s4 by (simp add: delete_conv)
  ultimately show "let c1 = snd (IsPayoutsLocked c);
           c2 = snd (client_Set c1 ''payouts_locked'' ''1'');
           c3 = snd (IsPayoutsLocked c2);
           c4 = snd (client_Del c3 ''payouts_locked'')
       in fst (IsPayoutsLocked c2) = (True, None) \<and> fst (IsPayoutsLocked c4) = (False, None)"
    unfolding c1_def c2_def c3_def c4_def Let_def by simp
qed

theorem IsPayoutsLocked_fail_open_fail_closed_witness:
  "fst (IsPayoutsLocked no_lock) = (False, None)
   \<and> fst (IsPayoutsLocked
            (snd (client_Set (snd (IsPayoutsLocked no_lock)) ''payouts_locked'' ''1''))) =
       (True, None)
   \<and> fst (IsPayoutsLocked
            (snd (client_Del
                   (snd (IsPayoutsLocked
                          (snd (client_Set (snd (IsPayoutsLocked no_lock))
                                 ''payouts_locked'' ''1''))))
                   ''payouts_locked''))) =
       (False, None)
   \<and> fst (IsPayoutsLocked lock_unreachable) =
       (False, Some (Errorf ''failed to check payouts lock'' (Failure ''connection refused'')))"
proof -
  have absent: "map_of (store no_lock) ''payouts_locked'' = None"
    by (simp add: no_lock_def)
  have reach: "reaches_server 5 no_lock"
    by (simp add: reaches_server_def no_lock_def)
  have down: "faults lock_unreachable = Some (Failure ''connection refused'') # []"
    by (simp add: lock_unreachable_def)
  have other: "\<not> errors_Is_Nil (Failure ''connection refused'')"
    by simp
  from IsPayoutsLocked_fail_open_fail_closed [of no_lock] absent reach
  have "fst (IsPayoutsLocked no_lock) = (False, None)"
    and "fst (IsPayoutsLocked
            (snd (client_Set (snd (IsPayoutsLocked no_lock)) ''payouts_locked'' ''1''))) =
       (True, None)"
    and "fst (IsPayoutsLocked
            (snd (client_Del
                   (snd (IsPayoutsLocked
                          (snd (client_Set (snd (IsPayoutsLocked no_lock))
                                 ''payouts_locked'' ''1''))))
                   ''payouts_locked''))) =
       (False, None)"
    by (simp_all add: Let_def)
  moreover
  from IsPayoutsLocked_fail_open_fail_closed
         [of lock_unreachable "Failure ''connection refused''" "[]"] down other
  have "fst (IsPayoutsLocked lock_unreachable) =
       (False, Some (Errorf ''failed to check payouts lock'' (Failure ''connection refused'')))"
    by simp
  ultimately show ?thesis by blast
qed

text \<open>
  C10. Only the text \<^verbatim>\<open>1\<close> means locked: when the key \<^verbatim>\<open>payouts_locked\<close> holds any other
  string and the \<^verbatim>\<open>GET\<close> reaches the server, the check returns false and no error.
\<close>

theorem IsPayoutsLocked_other_value:
  "map_of (store c) ''payouts_locked'' = Some val \<Longrightarrow> val \<noteq> ''1'' \<Longrightarrow> reaches_server 1 c \<Longrightarrow>
   fst (IsPayoutsLocked c) = (False, None)"
  using IsPayoutsLocked_reached(1) [of 0 c] by simp

theorem IsPayoutsLocked_other_value_witness:
  "map_of (store lock_zero) ''payouts_locked'' = Some ''0''
   \<and> fst (IsPayoutsLocked lock_zero) = (False, None)"
proof -
  have held: "map_of (store lock_zero) ''payouts_locked'' = Some ''0''"
    by (simp add: lock_zero_def)
  have other: "''0'' \<noteq> ''1''" by simp
  have reach: "reaches_server 1 lock_zero"
    by (simp add: reaches_server_def lock_zero_def)
  from IsPayoutsLocked_other_value [OF held other reach] held show ?thesis by simp
qed

section \<open>The JSON text: what is written is read back\<close>

lemma seq2_length: "seq2 xs \<Longrightarrow> 2 \<le> length xs"
  by (cases xs; cases "tl xs") (auto simp: seq2_def)

lemma seq3_length: "seq3 xs \<Longrightarrow> 3 \<le> length xs"
proof (rule ccontr)
  assume s: "seq3 xs" and "\<not> 3 \<le> length xs"
  then have "length (take 3 xs) < 3" by simp
  then have "take 3 xs = [] \<or> (\<exists>a. take 3 xs = [a]) \<or> (\<exists>a b. take 3 xs = [a, b])"
    by (cases "take 3 xs"; cases "tl (take 3 xs)"; cases "tl (tl (take 3 xs))") auto
  with s show False by (auto simp: seq3_def)
qed

lemma seq4_length: "seq4 xs \<Longrightarrow> 4 \<le> length xs"
proof (rule ccontr)
  assume s: "seq4 xs" and "\<not> 4 \<le> length xs"
  then have l: "length (take 4 xs) < 4" by simp
  obtain ys where ys: "take 4 xs = ys" by simp
  from l ys have "ys = [] \<or> (\<exists>a. ys = [a]) \<or> (\<exists>a b. ys = [a, b]) \<or> (\<exists>a b c. ys = [a, b, c])"
    by (cases ys; cases "tl ys"; cases "tl (tl ys)"; cases "tl (tl (tl ys))") auto
  with s ys show False by (auto simp: seq4_def)
qed

lemma utf8_width_le: "utf8_width xs \<le> length xs"
  using seq2_length [of xs] seq3_length [of xs] seq4_length [of xs]
  by (cases xs) (simp_all add: utf8_width_def)

lemma seq_take:
  "n \<le> length xs \<Longrightarrow> 2 \<le> n \<Longrightarrow> seq2 (take n xs @ ys) = seq2 xs"
  "n \<le> length xs \<Longrightarrow> 3 \<le> n \<Longrightarrow> seq3 (take n xs @ ys) = seq3 xs"
  "n \<le> length xs \<Longrightarrow> 4 \<le> n \<Longrightarrow> seq4 (take n xs @ ys) = seq4 xs"
  by (simp_all add: seq2_def seq3_def seq4_def min_def)


lemma hexval_hex_all: "list_all (\<lambda>n. hexval (hex n) = Some n) [0..<16]"
  by (simp add: upt_rec hexval_def hex_def)

lemma hexval_hex: "n < 16 \<Longrightarrow> hexval (hex n) = Some n"
  using hexval_hex_all by (simp add: list_all_iff)


lemma utf8_width_Cons:
  "utf8_width (x # xs) =
     (if (of_char x :: nat) < 0x80 then 1
      else if seq2 (x # xs) then 2
      else if seq3 (x # xs) then 3
      else if seq4 (x # xs) then 4
      else 0)"
  by (simp add: utf8_width_def)

lemma utf8_width_prefix:
  assumes "utf8_width xs = w" and "w \<noteq> 0"
  shows "utf8_width (take w xs @ ys) = w"
proof (cases xs)
  case Nil
  with assms show ?thesis by (simp add: utf8_width_def)
next
  case (Cons x xs')
  from assms(2) Cons have e: "take w xs @ ys = x # (take (w - 1) xs' @ ys)"
    by (cases w) simp_all
  show ?thesis
  proof (cases "(of_char x :: nat) < 0x80")
    case True
    with Cons assms have "w = 1" by (simp add: utf8_width_Cons)
    with True Cons show ?thesis by (simp add: utf8_width_Cons)
  next
    case False
    note hi = this
    from assms Cons hi consider (two) "seq2 xs" "w = 2"
      | (three) "\<not> seq2 xs" "seq3 xs" "w = 3"
      | (four) "\<not> seq2 xs" "\<not> seq3 xs" "seq4 xs" "w = 4"
      by (simp add: utf8_width_Cons split: if_splits)
    then show ?thesis
    proof cases
      case two
      from seq2_length [OF two(1)] have l: "2 \<le> length xs" .
      with seq_take(1) [of 2 xs ys] two have s: "seq2 (take w xs @ ys)" by simp
      note s' = s [unfolded e]
      from hi s' have "utf8_width (x # (take (w - 1) xs' @ ys)) = 2"
        by (simp only: utf8_width_Cons if_True if_False)
      then show ?thesis unfolding e using two(2) by simp
    next
      case three
      from seq3_length [OF three(2)] have l: "3 \<le> length xs" .
      with seq_take(1,2) [of 3 xs ys] three
      have s: "\<not> seq2 (take w xs @ ys)" "seq3 (take w xs @ ys)" by simp_all
      note s' = s [unfolded e]
      from hi s' have "utf8_width (x # (take (w - 1) xs' @ ys)) = 3"
        by (simp only: utf8_width_Cons if_True if_False)
      then show ?thesis unfolding e using three(3) by simp
    next
      case four
      from seq4_length [OF four(3)] have l: "4 \<le> length xs" .
      with seq_take [of 4 xs ys] four
      have s: "\<not> seq2 (take w xs @ ys)" "\<not> seq3 (take w xs @ ys)" "seq4 (take w xs @ ys)"
        by simp_all
      note s' = s [unfolded e]
      from hi s' have "utf8_width (x # (take (w - 1) xs' @ ys)) = 4"
        by (simp only: utf8_width_Cons if_True if_False)
      then show ?thesis unfolding e using four(4) by simp
    qed
  qed
qed


lemma char_of_bytes:
  "char_of (239::nat) = CHR 0xEF" "char_of (191::nat) = CHR 0xBF" "char_of (189::nat) = CHR 0xBD"
  "char_of (226::nat) = CHR 0xE2" "char_of (128::nat) = CHR 0x80" "char_of (168::nat) = CHR 0xA8"
  "char_of (169::nat) = CHR 0xA9"
  by (simp_all add: char_of_eq_iff)

lemma unquote_invalid:
  assumes "utf8_width [b] = 0"
  shows "unquote (escape_rune [b] @ after) = prepend (coerce_rune [b]) (unquote after)"
proof -
  from assms have hi: "\<not> (of_char b :: nat) < 0x80" by (auto simp: utf8_width_Cons split: if_splits)
  with assms have "escape_rune [b] = CHR 0x5C # ''ufffd''" by (simp add: escape_rune_def)
  moreover have "unquote ((CHR 0x5C # ''ufffd'') @ after) = prepend replacement (unquote after)"
    by (simp add: getu4_def hexval_def utf8_encode_def replacement_def char_of_bytes)
  ultimately show ?thesis using assms by (simp add: coerce_rune_def)
qed

lemma unquote_separator:
  "unquote ((CHR 0x5C # ''u2028'') @ after) = prepend [CHR 0xE2, CHR 0x80, CHR 0xA8] (unquote after)"
  "unquote ((CHR 0x5C # ''u2029'') @ after) = prepend [CHR 0xE2, CHR 0x80, CHR 0xA9] (unquote after)"
  by (simp_all add: getu4_def hexval_def utf8_encode_def char_of_bytes)

lemma unquote_u00:
  assumes "n < 0x80"
  shows "unquote ((CHR 0x5C # ''u00'' @ [hex (n div 16), hex (n mod 16)]) @ after) =
           prepend [char_of n] (unquote after)"
proof -
  from assms have "n div 16 < 16" "n mod 16 < 16" by simp_all
  then have h: "hexval (hex (n div 16)) = Some (n div 16)" "hexval (hex (n mod 16)) = Some (n mod 16)"
    by (simp_all add: hexval_hex)
  have z: "hexval (CHR ''0'') = Some 0" by (simp add: hexval_def)
  have "getu4 (take 4 (''00'' @ [hex (n div 16), hex (n mod 16)] @ after)) = Some n"
    by (simp add: getu4_def h z)
  with assms show ?thesis by (simp add: utf8_encode_def)
qed


lemma unquote_ascii:
  assumes a: "(of_char b :: nat) < 0x80"
  shows "unquote (escape_rune [b] @ after) = prepend [b] (unquote after)"
proof -
  consider (safe) "html_safe b"
    | (quote) "b = CHR 0x5C \<or> b = CHR 0x22"
    | (nl) "b = CHR 0x0A" | (cr) "b = CHR 0x0D" | (tab) "b = CHR 0x09"
    | (other) "\<not> html_safe b" "b \<noteq> CHR 0x5C" "b \<noteq> CHR 0x22" "b \<noteq> CHR 0x0A"
        "b \<noteq> CHR 0x0D" "b \<noteq> CHR 0x09"
    by blast
  then show ?thesis
  proof cases
    case safe
    with a have "escape_rune [b] = [b]" by (simp add: escape_rune_def)
    moreover from safe have "unquote (b # after) = prepend [b] (unquote after)"
      by (simp add: html_safe_def)
    ultimately show ?thesis by simp
  next
    case quote
    then show ?thesis
      by (auto simp: escape_rune_def html_safe_def simple_escape_def)
  next
    case nl
    then show ?thesis by (simp add: escape_rune_def html_safe_def simple_escape_def)
  next
    case cr
    then show ?thesis by (simp add: escape_rune_def html_safe_def simple_escape_def)
  next
    case tab
    then show ?thesis by (simp add: escape_rune_def html_safe_def simple_escape_def)
  next
    case other
    with a have "escape_rune [b] =
        CHR 0x5C # ''u00'' @ [hex (of_char b div 16), hex (of_char b mod 16)]"
      by (simp add: escape_rune_def)
    with unquote_u00 [OF a, of after] show ?thesis by simp
  qed
qed

lemma unquote_raw:
  assumes hi: "\<not> (of_char b :: nat) < 0x80"
    and w: "utf8_width (b # bs) = length (b # bs)"
  shows "unquote ((b # bs) @ after) = prepend (b # bs) (unquote after)"
proof -
  from w have "length (b # bs) \<noteq> 0" by simp
  from utf8_width_prefix [OF w this, of after]
  have p: "utf8_width (b # bs @ after) = Suc (length bs)" by simp
  from hi have "b \<noteq> CHR 0x22" "b \<noteq> CHR 0x5C" "\<not> (of_char b :: nat) < 0x20"
    by auto
  with hi p show ?thesis by simp
qed

lemma unquote_chunk:
  assumes "chunk r"
  shows "unquote (escape_rune r @ after) = prepend (coerce_rune r) (unquote after)"
proof -
  from assms consider (bad) b where "r = [b]" "utf8_width r = 0"
    | (good) "r \<noteq> []" "utf8_width r = length r"
    by (cases r) (auto simp: chunk_def)
  then show ?thesis
  proof cases
    case bad
    with unquote_invalid [of b after] show ?thesis by simp
  next
    case good
    then obtain b bs where r: "r = b # bs" by (cases r) auto
    from good r have ok: "coerce_rune r = r" by (simp add: coerce_rune_def)
    show ?thesis
    proof (cases "(of_char b :: nat) < 0x80")
      case True
      with good r have "bs = []" by (simp add: utf8_width_Cons)
      with unquote_ascii [OF True, of after] r ok show ?thesis by simp
    next
      case False
      from good r have nz: "utf8_width r \<noteq> 0" by simp
      consider (ls) "r = [CHR 0xE2, CHR 0x80, CHR 0xA8]" | (ps) "r = [CHR 0xE2, CHR 0x80, CHR 0xA9]"
        | (raw) "r \<noteq> [CHR 0xE2, CHR 0x80, CHR 0xA8]" "r \<noteq> [CHR 0xE2, CHR 0x80, CHR 0xA9]"
        by blast
      then show ?thesis
      proof cases
        case ls
        with nz have "escape_rune r = CHR 0x5C # ''u2028''" by (simp add: escape_rune_def)
        with unquote_separator(1) [of after] ls ok show ?thesis by simp
      next
        case ps
        with nz have "escape_rune r = CHR 0x5C # ''u2029''" by (simp add: escape_rune_def)
        with unquote_separator(2) [of after] ps ok show ?thesis by simp
      next
        case raw
        with nz False r have "escape_rune r = r" by (simp add: escape_rune_def)
        with unquote_raw [OF False, of bs after] good r ok show ?thesis by simp
      qed
    qed
  qed
qed

lemma chunk_runes: "r \<in> set (runes s) \<Longrightarrow> chunk r"
proof (induction s arbitrary: r rule: runes.induct)
  case 1
  then show ?case by simp
next
  case (2 b bs)
  show ?case
  proof (cases "utf8_width (b # bs) = 0")
    case True
    then have "utf8_width [b] = 0"
      by (auto simp: utf8_width_Cons seq2_def seq3_def seq4_def split: if_splits)
    with 2 True show ?thesis by (auto simp: chunk_def)
  next
    case False
    from utf8_width_prefix [OF refl False, of "[]"] utf8_width_le [of "b # bs"]
    have "chunk (take (utf8_width (b # bs)) (b # bs))"
      using False by (simp add: chunk_def min_def)
    with 2 False show ?thesis by auto
  qed
qed

lemma unquote_chunks:
  "\<forall>r \<in> set rs. chunk r \<Longrightarrow>
   unquote (concat (map escape_rune rs) @ CHR 0x22 # rest) = Some (concat (map coerce_rune rs), rest)"
proof (induction rs)
  case Nil
  then show ?case by simp
next
  case (Cons r rs)
  then have "chunk r" by simp
  from unquote_chunk [OF this, of "concat (map escape_rune rs) @ CHR 0x22 # rest"] Cons
  show ?case by (simp add: prepend_def)
qed

lemma unquote_escape: "unquote (escape s @ CHR 0x22 # rest) = Some (coerce s, rest)"
  using unquote_chunks [of "runes s" rest] chunk_runes [of _ s]
  by (simp add: escape_def coerce_def)

lemma concat_runes: "concat (runes s) = s"
  by (induction s rule: runes.induct) auto

lemma coerce_valid: "valid_utf8 s \<Longrightarrow> coerce s = s"
proof -
  assume "valid_utf8 s"
  then have "\<forall>r \<in> set (runes s). coerce_rune r = r"
    by (auto simp: valid_utf8_def list_all_iff coerce_rune_def)
  then have "map coerce_rune (runes s) = runes s"
    by (simp add: map_idI)
  then show ?thesis by (simp add: coerce_def concat_runes)
qed


lemma of_char_digit: "d < 10 \<Longrightarrow> (of_char (digit d) :: nat) = 48 + d"
  by (simp add: digit_def)

lemma is_digit_digit: "d < 10 \<Longrightarrow> is_digit (digit d)"
  by (simp add: is_digit_def of_char_digit)

lemma digit_zero: "d < 10 \<Longrightarrow> digit d = CHR ''0'' \<longleftrightarrow> d = 0"
proof
  assume d: "d < 10" and "digit d = CHR ''0''"
  then have "(of_char (digit d) :: nat) = of_char (CHR ''0'')" by simp
  with d show "d = 0" by (simp add: of_char_digit)
next
  assume "d = 0"
  then show "digit d = CHR ''0''" by (simp add: digit_def char_of_eq_iff)
qed

lemma enc_nat_digits: "list_all is_digit (enc_nat n)"
proof (induction n rule: enc_nat.induct)
  case (1 n)
  show ?case
  proof (cases "n < 10")
    case True
    then show ?thesis by (subst enc_nat.simps) (simp add: is_digit_digit)
  next
    case False
    with 1 show ?thesis by (subst enc_nat.simps) (simp add: is_digit_digit)
  qed
qed

lemma enc_nat_not_Nil: "enc_nat n \<noteq> []"
  by (subst enc_nat.simps) simp

lemma digits_val_snoc: "digits_val (ds @ [c]) = digits_val ds * 10 + (of_char c - 48)"
  by (simp add: digits_val_def)

lemma digits_val_enc_nat: "digits_val (enc_nat n) = n"
proof (induction n rule: enc_nat.induct)
  case (1 n)
  show ?case
  proof (cases "n < 10")
    case True
    then show ?thesis
      by (subst enc_nat.simps) (simp add: digits_val_def of_char_digit)
  next
    case False
    with 1 have "digits_val (enc_nat (n div 10)) = n div 10" by simp
    with False show ?thesis
      by (subst enc_nat.simps) (simp add: digits_val_snoc of_char_digit)
  qed
qed

lemma enc_nat_hd: "n \<noteq> 0 \<Longrightarrow> hd (enc_nat n) \<noteq> CHR ''0''"
proof (induction n rule: enc_nat.induct)
  case (1 n)
  show ?case
  proof (cases "n < 10")
    case True
    with "1.prems" show ?thesis by (subst enc_nat.simps) (simp add: digit_zero)
  next
    case False
    then have "n div 10 \<noteq> 0" by simp
    with 1 False have "hd (enc_nat (n div 10)) \<noteq> CHR ''0''" by simp
    with False show ?thesis
      by (subst enc_nat.simps) (simp add: enc_nat_not_Nil)
  qed
qed

lemma enc_nat_single: "enc_nat 0 = ''0''"
  by (subst enc_nat.simps) (simp add: digit_def char_of_eq_iff)

lemma enc_nat_leading: "\<not> (1 < length (enc_nat n) \<and> hd (enc_nat n) = CHR ''0'')"
  using enc_nat_hd [of n] by (cases "n = 0") (simp_all add: enc_nat_single)

lemma scan_enc_nat:
  assumes "\<not> is_digit c"
  shows "scan_int (enc_nat n @ c # t) = Some (int n, c # t)"
proof -
  obtain h r where hr: "enc_nat n = h # r" using enc_nat_not_Nil [of n] by (cases "enc_nat n") auto
  from enc_nat_digits [of n] hr have "is_digit h" by simp
  then have "h \<noteq> CHR ''-''" by (auto simp: is_digit_def)
  with hr have neg: "(case enc_nat n @ c # t of [] \<Rightarrow> False | x # _ \<Rightarrow> x = CHR ''-'') = False"
    by simp
  from enc_nat_digits [of n] assms
  have tw: "takeWhile is_digit (enc_nat n @ c # t) = enc_nat n"
    and dw: "dropWhile is_digit (enc_nat n @ c # t) = c # t"
    by (simp_all add: list_all_iff takeWhile_append2 dropWhile_append2)
  from enc_nat_leading [of n] enc_nat_not_Nil [of n] show ?thesis
    unfolding scan_int_def Let_def neg by (simp add: tw dw digits_val_enc_nat)
qed

lemma scan_enc_int:
  assumes "\<not> is_digit c"
  shows "scan_int (enc_int i @ c # t) = Some (i, c # t)"
proof (cases "i < 0")
  case False
  with scan_enc_nat [OF assms, of "nat i" t] show ?thesis by (simp add: enc_int_def)
next
  case True
  from enc_nat_digits [of "nat (- i)"] assms
  have tw: "takeWhile is_digit (enc_nat (nat (- i)) @ c # t) = enc_nat (nat (- i))"
    and dw: "dropWhile is_digit (enc_nat (nat (- i)) @ c # t) = c # t"
    by (simp_all add: list_all_iff takeWhile_append2 dropWhile_append2)
  from enc_nat_leading [of "nat (- i)"] enc_nat_not_Nil [of "nat (- i)"] True show ?thesis
    unfolding scan_int_def Let_def enc_int_def by (simp add: tw dw digits_val_enc_nat)
qed

lemma enc_int_hd:
  "\<exists>h r. enc_int i = h # r \<and> (h = CHR ''-'' \<or> is_digit h)"
proof (cases "i < 0")
  case True
  then show ?thesis by (simp add: enc_int_def)
next
  case False
  obtain h r where hr: "enc_nat (nat i) = h # r"
    using enc_nat_not_Nil [of "nat i"] by (cases "enc_nat (nat i)") auto
  with enc_nat_digits [of "nat i"] have "is_digit h" by simp
  with hr False show ?thesis by (simp add: enc_int_def)
qed

lemma lex_int:
  assumes "\<not> is_digit c"
  shows "lex (enc_int i @ c # t) = map_option (Cons (TInt i)) (lex (c # t))"
proof -
  from enc_int_hd [of i] obtain h r where hr: "enc_int i = h # r"
    and h: "h = CHR ''-'' \<or> is_digit h" by blast
  from h have nw: "\<not> ws h" "h \<noteq> CHR ''{''" "h \<noteq> CHR ''}''" "h \<noteq> CHR '':''" "h \<noteq> CHR '',''"
    "h \<noteq> CHR 0x22"
    by (auto simp: ws_def is_digit_def)
  from scan_enc_int [OF assms, of i t] hr
  have "scan_int (h # r @ c # t) = Some (i, c # t)" by simp
  with nw h have "lex (h # r @ c # t) = map_option (Cons (TInt i)) (lex (c # t))"
    by simp
  with hr show ?thesis by simp
qed

lemma lex_string:
  "lex (quoted (escape s) @ t) = map_option (Cons (TString (coerce s))) (lex t)"
  using unquote_escape [of s t] by (simp add: quoted_def ws_def)


lemma lex_key:
  "lex (quoted ''Address'' @ t) = map_option (Cons (TString ''Address'')) (lex t)"
  "lex (quoted ''Amount'' @ t) = map_option (Cons (TString ''Amount'')) (lex t)"
  "lex (quoted ''Timestamp'' @ t) = map_option (Cons (TString ''Timestamp'')) (lex t)"
  by (simp_all add: quoted_def ws_def prepend_def)

lemma not_digit_punct: "\<not> is_digit (CHR '','')" "\<not> is_digit (CHR ''}'')"
  by (simp_all add: is_digit_def)

lemma lex_Marshal:
  "lex (Marshal_PendingPayment p) =
     Some [LBrace, TString ''Address'', Colon, TString (coerce (Address p)), Comma,
           TString ''Amount'', Colon, TInt (sint (Amount p)), Comma,
           TString ''Timestamp'', Colon, TInt (sint (Timestamp p)), RBrace]"
proof -
  have tail: "lex ''}'' = Some [RBrace]" by (simp add: ws_def)
  have ts: "lex (enc_int (sint (Timestamp p)) @ ''}'') =
      Some [TInt (sint (Timestamp p)), RBrace]"
    using lex_int [OF not_digit_punct(2), of "sint (Timestamp p)" "[]"] tail by simp
  have k3: "lex (quoted ''Timestamp'' @ '':'' @ enc_int (sint (Timestamp p)) @ ''}'') =
      Some [TString ''Timestamp'', Colon, TInt (sint (Timestamp p)), RBrace]"
    using ts by (simp add: lex_key ws_def)
  have am: "lex (enc_int (sint (Amount p)) @ '','' @ quoted ''Timestamp'' @ '':''
        @ enc_int (sint (Timestamp p)) @ ''}'') =
      Some [TInt (sint (Amount p)), Comma, TString ''Timestamp'', Colon,
            TInt (sint (Timestamp p)), RBrace]"
    using lex_int [OF not_digit_punct(1), of "sint (Amount p)"
        "quoted ''Timestamp'' @ '':'' @ enc_int (sint (Timestamp p)) @ ''}''"] k3
    by (simp add: ws_def)
  have k2: "lex (quoted ''Amount'' @ '':'' @ enc_int (sint (Amount p)) @ '',''
        @ quoted ''Timestamp'' @ '':'' @ enc_int (sint (Timestamp p)) @ ''}'') =
      Some [TString ''Amount'', Colon, TInt (sint (Amount p)), Comma, TString ''Timestamp'', Colon,
            TInt (sint (Timestamp p)), RBrace]"
    using am by (simp add: lex_key ws_def)
  have ad: "lex (quoted (escape (Address p)) @ '','' @ quoted ''Amount'' @ '':''
        @ enc_int (sint (Amount p)) @ '','' @ quoted ''Timestamp'' @ '':''
        @ enc_int (sint (Timestamp p)) @ ''}'') =
      Some [TString (coerce (Address p)), Comma, TString ''Amount'', Colon,
            TInt (sint (Amount p)), Comma, TString ''Timestamp'', Colon,
            TInt (sint (Timestamp p)), RBrace]"
    using k2 by (simp add: lex_string ws_def)
  show ?thesis
    unfolding Marshal_PendingPayment_def using ad by (simp add: lex_key ws_def)
qed

lemma fold_equal_names:
  "fold_equal ''Address'' ''Address''"
  "\<not> fold_equal ''Address'' ''Amount''" "\<not> fold_equal ''Address'' ''Timestamp''"
  "fold_equal ''Amount'' ''Amount''" "\<not> fold_equal ''Amount'' ''Timestamp''"
  "fold_equal ''Timestamp'' ''Timestamp''"
  by (simp_all add: fold_equal_def)

lemma int64_sint: "int64 (sint (w :: 64 word))"
  using sint_lt [of w] sint_ge [of w] by (simp add: int64_def)

lemma Unmarshal_Marshal:
  "Unmarshal_PendingPayment other (Marshal_PendingPayment p) = (p\<lparr>Address := coerce (Address p)\<rparr>, None)"
proof -
  have "parse_object
      [LBrace, TString ''Address'', Colon, TString (coerce (Address p)), Comma,
       TString ''Amount'', Colon, TInt (sint (Amount p)), Comma,
       TString ''Timestamp'', Colon, TInt (sint (Timestamp p)), RBrace] =
    Some [(''Address'', JString (coerce (Address p))), (''Amount'', JInt (sint (Amount p))),
          (''Timestamp'', JInt (sint (Timestamp p)))]"
    by (simp add: parse_object_def)
  then show ?thesis
    by (simp add: Unmarshal_PendingPayment_def lex_Marshal ascii_def set_field_def fold_equal_names
        int64_sint)
qed

section \<open>The ledger round trip\<close>

lemma GetPendingPayments_single:
  assumes "snd (unmarshal val) = None"
    and "glob_match ''pending_payment:*'' key"
    and "store c = [(key, val)]"
    and "reaches_server 2 c"
  shows "fst (GetPendingPayments unmarshal c) = (Some [fst (unmarshal val)], None)"
proof -
  from assms(2,3) have keys: "pending_keys c = [key]" by (simp add: pending_keys_def)
  from assms(3) have held: "stored c key = val" by (simp add: stored_def)
  from assms(4) keys have "reaches_server (Suc (length (pending_keys c))) c"
    by (simp add: eval_nat_numeral)
  moreover from assms(1) keys held
  have "\<forall>key \<in> set (pending_keys c). snd (unmarshal (stored c key)) = None" by simp
  ultimately show ?thesis
    using GetPendingPayments_success [of c unmarshal] keys held by simp
qed

text \<open>
  What comes back from a store that holds the JSON text of one payment under one
  \<^verbatim>\<open>pending_payment:\<close> key: that payment, with its address coerced to valid UTF-8.
\<close>

lemma GetPendingPayments_Marshal:
  assumes "glob_match ''pending_payment:*'' key"
    and "store c = [(key, Marshal_PendingPayment payment)]"
    and "reaches_server 2 c"
  shows "fst (GetPendingPayments (Unmarshal_PendingPayment other) c) =
     (Some [payment\<lparr>Address := coerce (Address payment)\<rparr>], None)"
  using GetPendingPayments_single
    [where unmarshal = "Unmarshal_PendingPayment other" and c = c and key = key
       and val = "Marshal_PendingPayment payment", OF _ assms]
  by (simp add: Unmarshal_Marshal)

lemma enc_int_samples:
  "enc_int 1000 = ''1000''"
  "enc_int 1700000000 = ''1700000000''"
  by (simp_all add: enc_int_def enc_nat.simps digit_def char_of_eq_iff)

lemma Marshal_sample_payment: "Marshal_PendingPayment sample_payment = sample_json"
  by (simp add: Marshal_PendingPayment_def sample_payment_def sample_json_def enc_int_samples
      escape_def escape_rune_def utf8_width_def html_safe_def)

lemma Marshal_ff_payment:
  "Marshal_PendingPayment ff_payment =
     ''{'' @ quoted ''Address'' @ '':'' @ quoted (CHR 0x5C # ''ufffd'') @ '','' @ quoted ''Amount''
     @ '':1000,'' @ quoted ''Timestamp'' @ '':1700000000}''"
  by (simp add: Marshal_PendingPayment_def ff_payment_def enc_int_samples
      escape_def escape_rune_def utf8_width_def seq2_def seq3_def seq4_def)

lemma coerce_ff: "coerce [CHR 0xFF] = [CHR 0xEF, CHR 0xBF, CHR 0xBD]"
  by (simp add: coerce_def coerce_rune_def replacement_def utf8_width_def seq2_def seq3_def
      seq4_def)

lemma coerce_sample: "coerce (Address sample_payment) = Address sample_payment"
  by (simp add: coerce_def coerce_rune_def sample_payment_def utf8_width_def)

text \<open>On the sample text the decoder of the examples agrees with the decoder of the model.\<close>

lemma Unmarshal_sample_json:
  "Unmarshal_PendingPayment other sample_json = sample_Unmarshal sample_json"
  using Unmarshal_Marshal [of other sample_payment] coerce_sample
  by (simp add: Marshal_sample_payment sample_decode)

lemma valid_utf8_sample: "valid_utf8 (Address sample_payment)"
  by (simp add: valid_utf8_def sample_payment_def utf8_width_def)

text \<open>
  C8. The claim: every payment record, persisted as JSON with the field names
  \<^verbatim>\<open>Address\<close>, \<^verbatim>\<open>Amount\<close>, \<^verbatim>\<open>Timestamp\<close> under a single \<^verbatim>\<open>pending_payment:\<close> key, comes
  back from the listing as exactly one record equal to the original. A Go string holds
  any bytes, and JSON text is UTF-8: for the address that is the single byte FF, the
  stored text carries the escape of U+FFFD, and the listing returns one record whose
  address is the three bytes EF BF BD. The amount and the timestamp come back unchanged.
\<close>

theorem GetPendingPayments_round_trip_invalid_utf8:
  "store ledger_ff = [(''pending_payment:ff'', Marshal_PendingPayment ff_payment)]
   \<and> faults ledger_ff = []
   \<and> ff_payment = \<lparr>Address = [CHR 0xFF], Amount = 1000, Timestamp = 1700000000\<rparr>
   \<and> fst (GetPendingPayments (Unmarshal_PendingPayment reject_other) ledger_ff) =
       (Some [\<lparr>Address = [CHR 0xEF, CHR 0xBF, CHR 0xBD], Amount = 1000,
               Timestamp = 1700000000\<rparr>], None)
   \<and> fst (GetPendingPayments (Unmarshal_PendingPayment reject_other) ledger_ff) \<noteq>
       (Some [ff_payment], None)"
proof -
  have single: "store ledger_ff = [(''pending_payment:ff'', Marshal_PendingPayment ff_payment)]"
    and quiet: "faults ledger_ff = []"
    by (simp_all add: ledger_ff_def)
  have key: "glob_match ''pending_payment:*'' ''pending_payment:ff''" by simp
  have reach: "reaches_server 2 ledger_ff" by (simp add: reaches_server_def quiet)
  have "fst (GetPendingPayments (Unmarshal_PendingPayment reject_other) ledger_ff) =
      (Some [ff_payment\<lparr>Address := coerce (Address ff_payment)\<rparr>], None)"
    by (rule GetPendingPayments_Marshal [OF key single reach])
  then have "fst (GetPendingPayments (Unmarshal_PendingPayment reject_other) ledger_ff) =
      (Some [\<lparr>Address = [CHR 0xEF, CHR 0xBF, CHR 0xBD], Amount = 1000,
              Timestamp = 1700000000\<rparr>], None)"
    by (simp add: ff_payment_def coerce_ff)
  with single quiet show ?thesis by (simp add: ff_payment_def)
qed

text \<open>
  C8, amended. For every payment record whose address is valid UTF-8: when its JSON text,
  with the field names \<^verbatim>\<open>Address\<close>, \<^verbatim>\<open>Amount\<close>, \<^verbatim>\<open>Timestamp\<close>, is the only key of the
  store and lies under a \<^verbatim>\<open>pending_payment:\<close> key, and the two commands of the listing
  reach the server, the listing returns exactly one record, equal to the payment in all
  three fields.
\<close>

theorem GetPendingPayments_round_trip_valid_utf8:
  assumes "valid_utf8 (Address payment)"
    and "glob_match ''pending_payment:*'' key"
    and "store c = [(key, Marshal_PendingPayment payment)]"
    and "reaches_server 2 c"
  shows "fst (GetPendingPayments (Unmarshal_PendingPayment other) c) = (Some [payment], None)"
  using GetPendingPayments_Marshal [OF assms(2,3,4), of other] coerce_valid [OF assms(1)]
  by simp

theorem GetPendingPayments_round_trip_valid_utf8_witness:
  "Marshal_PendingPayment sample_payment = sample_json
   \<and> fst (GetPendingPayments (Unmarshal_PendingPayment reject_other) ledger_single) =
       (Some [\<lparr>Address = ''0xabc'', Amount = 1000, Timestamp = 1700000000\<rparr>], None)"
proof -
  have single:
    "store ledger_single = [(''pending_payment:0xabc'', Marshal_PendingPayment sample_payment)]"
    by (simp add: ledger_single_def Marshal_sample_payment)
  have reach: "reaches_server 2 ledger_single"
    by (simp add: reaches_server_def ledger_single_def)
  from GetPendingPayments_round_trip_valid_utf8
         [where payment = sample_payment and c = ledger_single
            and key = "''pending_payment:0xabc''" and other = reject_other,
          OF valid_utf8_sample sample_keys(1) single reach]
  show ?thesis by (simp add: sample_payment_def Marshal_sample_payment [unfolded sample_payment_def])
qed

section \<open>Deleting keys\<close>

lemma DeleteOldMinerData_client_Del:
  "fst (DeleteOldMinerData c key) = None \<longleftrightarrow> fst (client_Del c key) = None"
  "snd (DeleteOldMinerData c key) = snd (client_Del c key)"
  by (cases "client_Del c key"; simp add: DeleteOldMinerData_def split: option.splits)+

lemma DeleteOldShareData_client_Del:
  "fst (DeleteOldShareData c key) = None \<longleftrightarrow> fst (client_Del c key) = None"
  "snd (DeleteOldShareData c key) = snd (client_Del c key)"
  by (cases "client_Del c key"; simp add: DeleteOldShareData_def split: option.splits)+

text \<open>
  C9. Deleting is idempotent. For a key that the store does not hold, with the commands
  reaching the server, \<^verbatim>\<open>DeleteOldMinerData\<close> and \<^verbatim>\<open>DeleteOldShareData\<close> return no
  error and leave the store as it is, and a second delete of the same key returns no
  error either. And after any delete that returns no error, the key is absent.
\<close>

theorem Delete_idempotent:
  "(map_of (store c) key = None \<and> reaches_server 2 c \<longrightarrow>
      fst (DeleteOldMinerData c key) = None \<and>
      store (snd (DeleteOldMinerData c key)) = store c \<and>
      fst (DeleteOldMinerData (snd (DeleteOldMinerData c key)) key) = None \<and>
      fst (DeleteOldShareData c key) = None \<and>
      store (snd (DeleteOldShareData c key)) = store c \<and>
      fst (DeleteOldShareData (snd (DeleteOldShareData c key)) key) = None)
   \<and> (fst (DeleteOldMinerData c key) = None \<longrightarrow>
        map_of (store (snd (DeleteOldMinerData c key))) key = None)
   \<and> (fst (DeleteOldShareData c key) = None \<longrightarrow>
        map_of (store (snd (DeleteOldShareData c key))) key = None)"
proof (intro conjI impI)
  assume "fst (DeleteOldMinerData c key) = None"
  then show "map_of (store (snd (DeleteOldMinerData c key))) key = None"
    using client_Del_success [of c key] by (simp add: DeleteOldMinerData_client_Del)
next
  assume "fst (DeleteOldShareData c key) = None"
  then show "map_of (store (snd (DeleteOldShareData c key))) key = None"
    using client_Del_success [of c key] by (simp add: DeleteOldShareData_client_Del)
next
  assume a: "map_of (store c) key = None \<and> reaches_server 2 c"
  then have absent: "map_of (store c) key = None" and r: "reaches_server (Suc 1) c"
    by (simp_all add: eval_nat_numeral)
  define c' where "c' = snd (client_Del c key)"
  from client_Del_absent [OF absent r] have first: "fst (client_Del c key) = None"
    and st: "store c' = store c" and r': "reaches_server (Suc 0) c'"
    by (simp_all add: c'_def)
  from absent st have absent': "map_of (store c') key = None" by simp
  from client_Del_absent(1) [OF absent' r'] have second: "fst (client_Del c' key) = None" .
  from first show "fst (DeleteOldMinerData c key) = None"
    by (simp add: DeleteOldMinerData_client_Del)
  from first show "fst (DeleteOldShareData c key) = None"
    by (simp add: DeleteOldShareData_client_Del)
  from st show "store (snd (DeleteOldMinerData c key)) = store c"
    by (simp add: DeleteOldMinerData_client_Del c'_def)
  from st show "store (snd (DeleteOldShareData c key)) = store c"
    by (simp add: DeleteOldShareData_client_Del c'_def)
  from second show "fst (DeleteOldMinerData (snd (DeleteOldMinerData c key)) key) = None"
    by (simp add: DeleteOldMinerData_client_Del c'_def)
  from second show "fst (DeleteOldShareData (snd (DeleteOldShareData c key)) key) = None"
    by (simp add: DeleteOldShareData_client_Del c'_def)
qed

theorem Delete_idempotent_witness:
  "fst (DeleteOldMinerData no_lock ''miners:0xabc'') = None
   \<and> fst (DeleteOldMinerData (snd (DeleteOldMinerData no_lock ''miners:0xabc'')) ''miners:0xabc'') = None
   \<and> fst (DeleteOldShareData no_lock ''shares:0xabc'') = None
   \<and> fst (DeleteOldShareData (snd (DeleteOldShareData no_lock ''shares:0xabc'')) ''shares:0xabc'') = None
   \<and> fst (DeleteOldMinerData no_lock ''pending_payment:0xabc'') = None
   \<and> map_of (store (snd (DeleteOldMinerData no_lock ''pending_payment:0xabc'')))
        ''pending_payment:0xabc'' = None
   \<and> fst (DeleteOldShareData no_lock ''pending_payment:0xabc'') = None
   \<and> map_of (store (snd (DeleteOldShareData no_lock ''pending_payment:0xabc'')))
        ''pending_payment:0xabc'' = None"
proof -
  have present': "fst (DeleteOldShareData no_lock ''pending_payment:0xabc'') = None"
    by (simp add: DeleteOldShareData_def client_Del_def transmit_def no_lock_def)
  from Delete_idempotent [of no_lock "''pending_payment:0xabc''"] present'
  have gone': "map_of (store (snd (DeleteOldShareData no_lock ''pending_payment:0xabc'')))
        ''pending_payment:0xabc'' = None"
    by simp
  have reach: "reaches_server 2 no_lock"
    by (simp add: reaches_server_def no_lock_def)
  have absent: "map_of (store no_lock) ''miners:0xabc'' = None"
    "map_of (store no_lock) ''shares:0xabc'' = None"
    by (simp_all add: no_lock_def)
  have present: "fst (DeleteOldMinerData no_lock ''pending_payment:0xabc'') = None"
    by (simp add: DeleteOldMinerData_def client_Del_def transmit_def no_lock_def)
  from Delete_idempotent [of no_lock "''miners:0xabc''"] absent reach
  have "fst (DeleteOldMinerData no_lock ''miners:0xabc'') = None"
    and "fst (DeleteOldMinerData (snd (DeleteOldMinerData no_lock ''miners:0xabc'')) ''miners:0xabc'') = None"
    by simp_all
  moreover from Delete_idempotent [of no_lock "''shares:0xabc''"] absent reach
  have "fst (DeleteOldShareData no_lock ''shares:0xabc'') = None"
    and "fst (DeleteOldShareData (snd (DeleteOldShareData no_lock ''shares:0xabc'')) ''shares:0xabc'') = None"
    by simp_all
  moreover from Delete_idempotent [of no_lock "''pending_payment:0xabc''"] present
  have "map_of (store (snd (DeleteOldMinerData no_lock ''pending_payment:0xabc'')))
        ''pending_payment:0xabc'' = None"
    by simp
  ultimately show ?thesis using present present' gone' by blast
qed

end
